theory Spec2Isabelle
  imports Main "HOL-Library.Word" "HOL-Library.Sublist"
begin

unbundle bit_operations_syntax

section \<open>Data model\<close>

text \<open>
  Python \<open>bytes\<close> are lists of 8-bit words; a Python \<open>str\<close> is the list of its Unicode
  code points; Python integers are unbounded (\<open>int\<close>), the values that
  \<open>struct.unpack\<close> yields are naturals.
\<close>

type_synonym byte = "8 word"
type_synonym bytes = "byte list"
type_synonym pystr = "nat list"

text \<open>A string literal of the source, as code points.\<close>

definition str :: "string \<Rightarrow> pystr" where
  "str s = map of_char s"

text \<open>The slice \<open>xs[a:b]\<close> for indices \<open>0 \<le> a \<le> b\<close>: it is cut short at the end of \<open>xs\<close>.\<close>

definition slice :: "'a list \<Rightarrow> nat \<Rightarrow> nat \<Rightarrow> 'a list" where
  "slice xs a b = take (b - a) (drop a xs)"

text \<open>The fields of \<open>class VendorBootHeader\<close>, in the order \<open>__init__\<close> assigns them.\<close>

record VendorBootHeader =
  data :: bytes
  magic :: bytes
  header_version :: nat
  page_size :: nat
  kernel_load_addr :: nat
  ramdisk_load_addr :: nat
  vendor_ramdisk_total_size :: nat
  cmdline :: pystr
  tags_load_addr :: nat
  product_name :: pystr
  header_size :: nat
  dtb_size :: nat
  dtb_load_addr :: nat
  vendor_ramdisk_table_size :: nat
  vendor_ramdisk_table_num_entries :: nat
  vendor_bootconfig_size :: nat
  table_offset :: nat

section \<open>The device-tree-blob offset\<close>

text \<open>
  \<open>VendorBootHeader.get_dtb_offset\<close>. The result is a Python integer: the clamp
  \<open>len(self.data) - self.dtb_size\<close> is negative when the blob is larger than the buffer.
\<close>

definition get_dtb_offset :: "VendorBootHeader \<Rightarrow> int" where
  "get_dtb_offset h =
     (let ramdisk_start = int (header_size h) + int (vendor_bootconfig_size h);
          dtb_offset = ramdisk_start + int (vendor_ramdisk_total_size h)
      in if dtb_offset + int (dtb_size h) > int (length (data h))
         then int (length (data h)) - int (dtb_size h)
         else dtb_offset)"


text \<open>
  A header over a 64-byte buffer with a 16-byte header, 8 bytes of boot configuration, 24
  bytes of ramdisks and a 10-byte blob; the theorems below are evaluated on it.
\<close>

definition small_header :: VendorBootHeader where
  "small_header =
     \<lparr>data = replicate 64 0, magic = [], header_version = 4, page_size = 4096,
      kernel_load_addr = 0, ramdisk_load_addr = 0, vendor_ramdisk_total_size = 24,
      cmdline = [], tags_load_addr = 0, product_name = [], header_size = 16, dtb_size = 10,
      dtb_load_addr = 0, vendor_ramdisk_table_size = 0, vendor_ramdisk_table_num_entries = 0,
      vendor_bootconfig_size = 8, table_offset = 2172\<rparr>"

section \<open>The binary patcher\<close>

text \<open>
  \<open>bytes.find(sub, start)\<close> and \<open>bytes.rfind(sub)\<close>: the lowest index at or after
  \<open>start\<close>, respectively the highest index, at which \<open>sub\<close> occurs; \<open>None\<close> stands for
  Python's \<open>-1\<close>.
\<close>

definition occurs_at :: "bytes \<Rightarrow> bytes \<Rightarrow> nat \<Rightarrow> bool" where
  "occurs_at xs sub i = (slice xs i (i + length sub) = sub)"

definition bytes_find :: "bytes \<Rightarrow> bytes \<Rightarrow> nat \<Rightarrow> nat option" where
  "bytes_find xs sub start = List.find (occurs_at xs sub) [start ..< length xs + 1]"

definition bytes_rfind :: "bytes \<Rightarrow> bytes \<Rightarrow> nat option" where
  "bytes_rfind xs sub = List.find (occurs_at xs sub) (rev [0 ..< length xs + 1])"

definition pattern1_old :: bytes where
  "pattern1_old = [0x60, 0x00, 0x00, 0x54, 0x40, 0x00]"

definition pattern1_new :: bytes where
  "pattern1_new = [0x60, 0x00, 0x00, 0x54, 0x00, 0x00]"

definition pattern2_old :: bytes where
  "pattern2_old = [0x20, 0x00, 0x80, 0x52]"

definition pattern2_new :: bytes where
  "pattern2_new = [0x00, 0x00, 0x80, 0x52]"

text \<open>
  The first \<open>if\<close> of \<open>patch_adaptive_ts\<close>: it yields \<open>new_data\<close>, \<open>modified\<close> and
  \<open>search_start\<close>.
\<close>

definition patch_first :: "bytes \<Rightarrow> bytes \<times> bool \<times> nat" where
  "patch_first new_data =
     (case bytes_rfind new_data pattern1_old of
        Some last_pos \<Rightarrow>
          (take last_pos new_data @ pattern1_new @ drop (last_pos + length pattern1_old) new_data,
           True, last_pos + length pattern1_new)
      | None \<Rightarrow> (new_data, False, 0))"

text \<open>The second \<open>if\<close>: it yields the final \<open>new_data\<close> and \<open>modified\<close>.\<close>

definition patch_second :: "bytes \<times> bool \<times> nat \<Rightarrow> bytes \<times> bool" where
  "patch_second st =
     (case st of (new_data, modified, search_start) \<Rightarrow>
        if search_start < length new_data then
          (case bytes_find new_data pattern2_old search_start of
             Some pos2 \<Rightarrow>
               (take pos2 new_data @ pattern2_new @ drop (pos2 + length pattern2_old) new_data, True)
           | None \<Rightarrow> (new_data, modified))
        else (new_data, modified))"

definition patch_bytes :: "bytes \<Rightarrow> bytes \<times> bool" where
  "patch_bytes d = patch_second (patch_first d)"

text \<open>
  The file system as far as the patcher sees it: the regular files by path, and the
  sequence of writes a call performs.
\<close>

type_synonym filesystem = "pystr \<rightharpoonup> bytes"

datatype write_event = Write pystr bytes

definition patch_adaptive_ts :: "filesystem \<Rightarrow> pystr \<Rightarrow> filesystem \<times> write_event list" where
  "patch_adaptive_ts fs module_path =
     (case fs module_path of
        None \<Rightarrow> (fs, [])
      | Some d \<Rightarrow>
          (case patch_bytes d of (new_data, modified) \<Rightarrow>
             if modified then (fs(module_path \<mapsto> new_data), [Write module_path new_data])
             else (fs, [])))"

text \<open>
  A blob with two occurrences of the first pattern (at 4 and 11) and three of the second
  (at 0, 17 and 22).
\<close>

definition blob :: bytes where
  "blob = pattern2_old @ pattern1_old @ [7] @ pattern1_old @ pattern2_old @ [9] @ pattern2_old"

section \<open>Decoding bytes\<close>

text \<open>
  The exceptions the modelled functions raise: the two \<open>ValueError\<close>s of the header parser
  and of the table decoder, \<open>struct.error\<close> of \<open>struct.unpack\<close> on a slice of the
  wrong length, \<open>UnicodeDecodeError\<close> of \<open>decode('ascii')\<close>, the \<open>ValueError\<close> of
  \<open>int(b, 16)\<close> and of a read of negative length, the \<open>OverflowError\<close> of the
  \<open>stat\<close> predicates, and the \<open>RuntimeError\<close> of \<open>_extract_from_image\<close>.
\<close>

datatype error =
    InvalidMagic bytes
  | StructError
  | TruncatedTable nat
  | UnicodeDecodeError
  | ValueError
  | OverflowError
  | RuntimeError

definition bind_err :: "error + 'a \<Rightarrow> ('a \<Rightarrow> error + 'b) \<Rightarrow> error + 'b" where
  "bind_err m f = (case m of Inl e \<Rightarrow> Inl e | Inr x \<Rightarrow> f x)"

text \<open>Little-endian unsigned integers: \<open>struct.unpack('<I', b)[0]\<close> and \<open>'<Q'\<close>.\<close>

fun le_nat :: "bytes \<Rightarrow> nat" where
  "le_nat [] = 0"
| "le_nat (b # bs) = unat b + 256 * le_nat bs"

definition unpack_I :: "bytes \<Rightarrow> error + nat" where
  "unpack_I b = (if length b = 4 then Inr (le_nat b) else Inl StructError)"

definition unpack_Q :: "bytes \<Rightarrow> error + nat" where
  "unpack_Q b = (if length b = 8 then Inr (le_nat b) else Inl StructError)"

text \<open>\<open>b.rstrip(b'\x00')\<close>.\<close>

definition rstrip_nul :: "bytes \<Rightarrow> bytes" where
  "rstrip_nul b = rev (dropWhile (\<lambda>x. x = 0) (rev b))"

text \<open>
  One step of the UTF-8 decoder on a non-empty input: the code point of the well-formed
  sequence at the front and its length, or \<open>None\<close> and the number of bytes that the
  decoder reports as the malformed range (an invalid start byte, a lead byte followed by
  an invalid continuation, or a sequence cut off by the end of the input). Overlong
  forms, surrogates and code points above \<open>10FFFF\<close> are malformed.
\<close>

definition is_cont :: "byte \<Rightarrow> bool" where
  "is_cont c = (0x80 \<le> c \<and> c \<le> 0xBF)"

definition second_ok :: "byte \<Rightarrow> byte \<Rightarrow> bool" where
  "second_ok b c =
     (if b = 0xE0 then 0xA0 \<le> c \<and> c \<le> 0xBF
      else if b = 0xED then 0x80 \<le> c \<and> c \<le> 0x9F
      else if b = 0xF0 then 0x90 \<le> c \<and> c \<le> 0xBF
      else if b = 0xF4 then 0x80 \<le> c \<and> c \<le> 0x8F
      else is_cont c)"

fun utf8_step :: "bytes \<Rightarrow> nat option \<times> nat" where
  "utf8_step [] = (None, 0)"
| "utf8_step (b # bs) =
     (if b < 0x80 then (Some (unat b), 1)
      else if 0xC2 \<le> b \<and> b \<le> 0xDF then
        (case bs of
           [] \<Rightarrow> (None, 1)
         | c # _ \<Rightarrow>
             if is_cont c then (Some (unat b mod 32 * 64 + unat c mod 64), 2) else (None, 1))
      else if 0xE0 \<le> b \<and> b \<le> 0xEF then
        (case bs of
           [] \<Rightarrow> (None, 1)
         | c # r \<Rightarrow>
             if \<not> second_ok b c then (None, 1)
             else (case r of
                     [] \<Rightarrow> (None, 2)
                   | e # _ \<Rightarrow>
                       if is_cont e
                       then (Some (unat b mod 16 * 4096 + unat c mod 64 * 64 + unat e mod 64), 3)
                       else (None, 2)))
      else if 0xF0 \<le> b \<and> b \<le> 0xF4 then
        (case bs of
           [] \<Rightarrow> (None, 1)
         | c # r \<Rightarrow>
             if \<not> second_ok b c then (None, 1)
             else (case r of
                     [] \<Rightarrow> (None, 2)
                   | e # r' \<Rightarrow>
                       if \<not> is_cont e then (None, 2)
                       else (case r' of
                               [] \<Rightarrow> (None, 3)
                             | f # _ \<Rightarrow>
                                 if is_cont f
                                 then (Some (unat b mod 8 * 262144 + unat c mod 64 * 4096
                                             + unat e mod 64 * 64 + unat f mod 64), 4)
                                 else (None, 3))))
      else (None, 1))"

lemma utf8_step_consumes: "b \<noteq> [] \<Longrightarrow> 0 < snd (utf8_step b)"
proof (cases b)
  case Nil
  assume "b \<noteq> []"
  with Nil show ?thesis by simp
next
  case (Cons h t)
  show ?thesis
  proof (cases t)
    case Nil
    with Cons show ?thesis by simp
  next
    case c1: (Cons c r)
    show ?thesis
    proof (cases r)
      case Nil
      with Cons c1 show ?thesis by simp
    next
      case c2: (Cons e r')
      show ?thesis
      proof (cases r')
        case Nil
        with Cons c1 c2 show ?thesis by simp
      next
        case c3: (Cons f r'')
        with Cons c1 c2 show ?thesis by simp
      qed
    qed
  qed
qed

text \<open>
  \<open>b.decode('utf-8', errors='ignore')\<close>: a malformed range yields nothing and decoding
  resumes after it.
\<close>

function utf8_ignore :: "bytes \<Rightarrow> pystr" where
  "utf8_ignore [] = []"
| "utf8_ignore (h # t) =
     (case fst (utf8_step (h # t)) of Some cp \<Rightarrow> [cp] | None \<Rightarrow> [])
     @ utf8_ignore (drop (snd (utf8_step (h # t))) (h # t))"
  by pat_completeness auto
termination
proof (relation "measure length")
  show "wf (measure length)" by simp
next
  fix h :: byte and t :: bytes
  from utf8_step_consumes [of "h # t"] have "0 < snd (utf8_step (h # t))" by simp
  then show "(drop (snd (utf8_step (h # t))) (h # t), h # t) \<in> measure length" by simp
qed

text \<open>
  The decoding that replaces instead: what \<open>errors='replace'\<close> yields, one \<open>U+FFFD\<close> for
  each malformed range. The source does not use it; it is what ``invalid byte sequences
  are replaced'' describes.
\<close>

function utf8_replace :: "bytes \<Rightarrow> pystr" where
  "utf8_replace [] = []"
| "utf8_replace (h # t) =
     (case fst (utf8_step (h # t)) of Some cp \<Rightarrow> [cp] | None \<Rightarrow> [0xFFFD])
     @ utf8_replace (drop (snd (utf8_step (h # t))) (h # t))"
  by pat_completeness auto
termination
proof (relation "measure length")
  show "wf (measure length)" by simp
next
  fix h :: byte and t :: bytes
  from utf8_step_consumes [of "h # t"] have "0 < snd (utf8_step (h # t))" by simp
  then show "(drop (snd (utf8_step (h # t))) (h # t), h # t) \<in> measure length" by simp
qed

section \<open>The vendor boot header\<close>

definition BOOT_MAGIC_VENDOR_BOOT :: bytes where
  "BOOT_MAGIC_VENDOR_BOOT = map of_char ''VNDRBOOT''"

definition VENDOR_RAMDISK_CMDLINE_SIZE :: nat where
  "VENDOR_RAMDISK_CMDLINE_SIZE = 2048"

definition BOOT_PRODUCT_NAME_SIZE :: nat where
  "BOOT_PRODUCT_NAME_SIZE = 64"

definition VENDOR_RAMDISK_NAME_SIZE :: nat where
  "VENDOR_RAMDISK_NAME_SIZE = 32"

definition BOOT_ID_SIZE :: nat where
  "BOOT_ID_SIZE = 32"

definition VENDOR_RAMDISK_TYPE_RECOVERY :: nat where
  "VENDOR_RAMDISK_TYPE_RECOVERY = 2"

text \<open>
  \<open>VendorBootHeader.__init__\<close>. The running \<open>offset\<close> of the source is written out:
  the magic is at 0, the five 32-bit fields follow from 8 to 28, the command line fills
  28 to \<open>28 + 2048\<close>, \<open>tags_load_addr\<close> follows, the product name fills 2080 to
  \<open>2080 + 64\<close>, then \<open>header_size\<close>, \<open>dtb_size\<close>, the 64-bit \<open>dtb_load_addr\<close> and
  the last three 32-bit fields, which end at 2172. The magic is compared before
  anything else is read; the text fields are sliced without a length check.
\<close>

definition VendorBootHeader_init :: "bytes \<Rightarrow> error + VendorBootHeader" where
  "VendorBootHeader_init d =
     (if slice d 0 8 \<noteq> BOOT_MAGIC_VENDOR_BOOT then Inl (InvalidMagic (slice d 0 8))
      else
        bind_err (unpack_I (slice d 8 12)) (\<lambda>v_header_version.
        bind_err (unpack_I (slice d 12 16)) (\<lambda>v_page_size.
        bind_err (unpack_I (slice d 16 20)) (\<lambda>v_kernel_load_addr.
        bind_err (unpack_I (slice d 20 24)) (\<lambda>v_ramdisk_load_addr.
        bind_err (unpack_I (slice d 24 28)) (\<lambda>v_vendor_ramdisk_total_size.
        bind_err (unpack_I (slice d (28 + VENDOR_RAMDISK_CMDLINE_SIZE)
                                    (28 + VENDOR_RAMDISK_CMDLINE_SIZE + 4))) (\<lambda>v_tags_load_addr.
        bind_err (unpack_I (slice d 2144 2148)) (\<lambda>v_header_size.
        bind_err (unpack_I (slice d 2148 2152)) (\<lambda>v_dtb_size.
        bind_err (unpack_Q (slice d 2152 2160)) (\<lambda>v_dtb_load_addr.
        bind_err (unpack_I (slice d 2160 2164)) (\<lambda>v_vendor_ramdisk_table_size.
        bind_err (unpack_I (slice d 2164 2168)) (\<lambda>v_vendor_ramdisk_table_num_entries.
        bind_err (unpack_I (slice d 2168 2172)) (\<lambda>v_vendor_bootconfig_size.
          Inr \<lparr>data = d, magic = slice d 0 8,
               header_version = v_header_version, page_size = v_page_size,
               kernel_load_addr = v_kernel_load_addr,
               ramdisk_load_addr = v_ramdisk_load_addr,
               vendor_ramdisk_total_size = v_vendor_ramdisk_total_size,
               cmdline = utf8_ignore (rstrip_nul (slice d 28 (28 + VENDOR_RAMDISK_CMDLINE_SIZE))),
               tags_load_addr = v_tags_load_addr,
               product_name =
                 utf8_ignore (rstrip_nul (slice d 2080 (2080 + BOOT_PRODUCT_NAME_SIZE))),
               header_size = v_header_size, dtb_size = v_dtb_size,
               dtb_load_addr = v_dtb_load_addr,
               vendor_ramdisk_table_size = v_vendor_ramdisk_table_size,
               vendor_ramdisk_table_num_entries = v_vendor_ramdisk_table_num_entries,
               vendor_bootconfig_size = v_vendor_bootconfig_size,
               table_offset = 2172\<rparr>)))))))))))))"

section \<open>The ramdisk table\<close>

text \<open>The fields of \<open>class VendorRamdiskEntry\<close>: \<open>size\<close>, \<open>offset\<close>, \<open>type\<close>, \<open>name\<close>,
  \<open>board_id\<close> and \<open>type_str\<close>.\<close>

record VendorRamdiskEntry =
  entry_size :: nat
  entry_offset :: nat
  entry_type :: nat
  entry_name :: pystr
  board_id :: pystr
  type_str :: pystr

text \<open>\<open>bytes.hex()\<close>: two lowercase hexadecimal digits for each byte.\<close>

definition hex_digit :: "nat \<Rightarrow> nat" where
  "hex_digit n = (if n < 10 then 48 + n else 87 + n)"

definition bytes_hex :: "bytes \<Rightarrow> pystr" where
  "bytes_hex b = concat (map (\<lambda>x. [hex_digit (unat x div 16), hex_digit (unat x mod 16)]) b)"

text \<open>The decimal digits of a natural number, as the f-string prints \<open>self.type\<close>.\<close>

fun str_of_nat :: "nat \<Rightarrow> pystr" where
  "str_of_nat n = (if n < 10 then [48 + n] else str_of_nat (n div 10) @ [48 + n mod 10])"

definition type_str_of :: "nat \<Rightarrow> pystr" where
  "type_str_of t =
     (if t = 0 then str ''none''
      else if t = 1 then str ''platform''
      else if t = 2 then str ''recovery''
      else if t = 3 then str ''dlkm''
      else str ''unknown('' @ str_of_nat t @ str '')'')"

text \<open>\<open>VendorRamdiskEntry.__init__\<close>.\<close>

definition VendorRamdiskEntry_init :: "bytes \<Rightarrow> error + VendorRamdiskEntry" where
  "VendorRamdiskEntry_init d =
     bind_err (unpack_I (slice d 0 4)) (\<lambda>v_size.
     bind_err (unpack_I (slice d 4 8)) (\<lambda>v_offset.
     bind_err (unpack_I (slice d 8 12)) (\<lambda>v_type.
       Inr \<lparr>entry_size = v_size, entry_offset = v_offset, entry_type = v_type,
            entry_name = utf8_ignore (rstrip_nul (slice d 12 (12 + VENDOR_RAMDISK_NAME_SIZE))),
            board_id = bytes_hex (slice d (12 + VENDOR_RAMDISK_NAME_SIZE)
                                         (12 + VENDOR_RAMDISK_NAME_SIZE + BOOT_ID_SIZE)),
            type_str = type_str_of v_type\<rparr>)))"

text \<open>
  \<open>VendorBootHeader.get_ramdisk_entries\<close>: the loop \<open>for i in range(num_entries)\<close>, here
  from entry \<open>i\<close> with \<open>k\<close> entries left to read. The source returns \<open>[]\<close> at once for an
  empty table, which is what the loop yields for a count of 0.
\<close>

definition entry_width :: nat where
  "entry_width = 4 + 4 + 4 + VENDOR_RAMDISK_NAME_SIZE + BOOT_ID_SIZE"

fun entries_from :: "VendorBootHeader \<Rightarrow> nat \<Rightarrow> nat \<Rightarrow> error + VendorRamdiskEntry list" where
  "entries_from h i 0 = Inr []"
| "entries_from h i (Suc k) =
     (let start = table_offset h + i * entry_width;
          end = start + entry_width;
          entry_data = slice (data h) start end
      in if length entry_data < entry_width then Inl (TruncatedTable i)
         else bind_err (VendorRamdiskEntry_init entry_data) (\<lambda>entry.
              bind_err (entries_from h (i + 1) k) (\<lambda>entries. Inr (entry # entries))))"

definition get_ramdisk_entries :: "VendorBootHeader \<Rightarrow> error + VendorRamdiskEntry list" where
  "get_ramdisk_entries h =
     (if vendor_ramdisk_table_num_entries h = 0 then Inr []
      else entries_from h 0 (vendor_ramdisk_table_num_entries h))"

text \<open>
  Images to evaluate the parser on: a header whose command line region starts with the
  bytes \<open>61 FF 62\<close> and whose other fields are zero, and a header announcing \<open>n\<close> table
  entries, followed by \<open>tail\<close>.
\<close>

definition text_image :: bytes where
  "text_image = BOOT_MAGIC_VENDOR_BOOT @ replicate 20 0 @ [0x61, 0xFF, 0x62] @ replicate 2141 0"

definition table_image :: "byte \<Rightarrow> bytes \<Rightarrow> bytes" where
  "table_image n tail =
     BOOT_MAGIC_VENDOR_BOOT @ replicate 2156 0 @ [n, 0, 0, 0] @ [0, 0, 0, 0] @ tail"

section \<open>Choosing the recovery ramdisk\<close>

text \<open>\<open>os.path.join(a, b)\<close> of \<open>posixpath\<close>, for two arguments; 47 is the separator \<open>/\<close>.\<close>

definition os_path_join :: "pystr \<Rightarrow> pystr \<Rightarrow> pystr" where
  "os_path_join a b =
     (if take 1 b = [47] then b
      else if a = [] \<or> last a = 47 then a @ b
      else a @ [47] @ b)"

text \<open>
  The directory of an entry in \<open>_extract_from_image\<close>:
  \<open>os.path.join(self.work_dir, f"ramdisk_{entry.name or entry.type_str}")\<close>.
\<close>

definition ramdisk_dir :: "pystr \<Rightarrow> VendorRamdiskEntry \<Rightarrow> pystr" where
  "ramdisk_dir work_dir entry =
     os_path_join work_dir
       (str ''ramdisk_'' @ (if entry_name entry \<noteq> [] then entry_name entry else type_str entry))"

text \<open>
  The loop \<open>for entry in self.entries\<close> of \<open>_extract_from_image\<close>, as far as it assigns
  \<open>self.recovery_ramdisk_dir\<close> (\<open>None\<close> before the loop). Writing the entry's bytes to a
  file and extracting them are left out: they do not assign it.
\<close>

fun recovery_loop :: "pystr \<Rightarrow> VendorRamdiskEntry list \<Rightarrow> pystr option \<Rightarrow> pystr option" where
  "recovery_loop work_dir [] recovery_ramdisk_dir = recovery_ramdisk_dir"
| "recovery_loop work_dir (entry # rest) recovery_ramdisk_dir =
     (let dest_dir = ramdisk_dir work_dir entry
      in recovery_loop work_dir rest
           (if entry_type entry = VENDOR_RAMDISK_TYPE_RECOVERY then Some dest_dir
            else recovery_ramdisk_dir))"

text \<open>\<open>not x\<close> for a value that is \<open>None\<close> or a string.\<close>

definition py_not :: "pystr option \<Rightarrow> bool" where
  "py_not x = (case x of None \<Rightarrow> True | Some s \<Rightarrow> s = [])"

text \<open>
  The value of \<open>self.recovery_ramdisk_dir\<close> after the loop and the two \<open>if\<close>s that
  follow it: the fallback to \<open>self.entries[0]\<close>, and the \<open>RuntimeError\<close>.
\<close>

definition extract_from_image_recovery_dir ::
    "pystr \<Rightarrow> VendorRamdiskEntry list \<Rightarrow> error + pystr" where
  "extract_from_image_recovery_dir work_dir entries =
     (let r = recovery_loop work_dir entries None;
          r = (if py_not r \<and> entries \<noteq> []
               then (case entries of e0 # _ \<Rightarrow> Some (ramdisk_dir work_dir e0) | [] \<Rightarrow> r)
               else r)
      in case r of
           None \<Rightarrow> Inl RuntimeError
         | Some p \<Rightarrow> if p = [] then Inl RuntimeError else Inr p)"

text \<open>A table entry of type \<open>t\<close> and name \<open>n\<close>, its other fields zero.\<close>

definition named_entry :: "nat \<Rightarrow> string \<Rightarrow> VendorRamdiskEntry" where
  "named_entry t n =
     \<lparr>entry_size = 0, entry_offset = 0, entry_type = t, entry_name = str n,
      board_id = bytes_hex (replicate 32 0), type_str = type_str_of t\<rparr>"

section \<open>The cpio extractor\<close>

text \<open>
  The loop of \<open>extract_cpio\<close> over the open file, which is modelled by the bytes that
  remain to be read. The gzip pre-pass and the check that the file exists come before
  the loop and are not part of it. The file system is modelled by the sequence of
  operations requested from it; failures inside these operations are outside the model.
\<close>

datatype fs_op =
    MakeDirs pystr
  | Symlink pystr pystr
  | WriteFile pystr bytes

text \<open>
  Why the loop is left: the header read came back short, the magic is not recognised, or
  the name is the trailer; and how the call ends.
\<close>

datatype stop = EndOfData | UnexpectedMagic | Trailer

datatype outcome = Stopped stop | Raised error

datatype step_result = Stop stop | Raise error | Continue "fs_op list" bytes

text \<open>
  \<open>f.read(n)\<close> on a buffered binary file: what is read and what remains. A length of
  \<open>-1\<close> reads to the end, a length below \<open>-1\<close> raises \<open>ValueError\<close>.
\<close>

definition f_read :: "bytes \<Rightarrow> int \<Rightarrow> error + bytes \<times> bytes" where
  "f_read s n =
     (if n < - 1 then Inl ValueError
      else if n = - 1 then Inr (s, [])
      else Inr (take (nat n) s, drop (nat n) s))"

text \<open>
  \<open>stat.S_ISDIR(mode)\<close> and \<open>stat.S_ISLNK(mode)\<close>: the C implementation converts the
  mode to an unsigned 32-bit \<open>mode_t\<close> and raises \<open>OverflowError\<close> outside that range.
\<close>

definition mode_t :: "int \<Rightarrow> error + int" where
  "mode_t m = (if m < 0 \<or> 2 ^ 32 \<le> m then Inl OverflowError else Inr m)"

definition S_ISDIR :: "int \<Rightarrow> bool" where
  "S_ISDIR m = (m AND 0xF000 = 0x4000)"

definition S_ISLNK :: "int \<Rightarrow> bool" where
  "S_ISLNK m = (m AND 0xF000 = 0xA000)"

text \<open>\<open>s.lstrip('/')\<close>, and \<open>os.path.dirname(p)\<close> of \<open>posixpath\<close>.\<close>

definition lstrip_sep :: "pystr \<Rightarrow> pystr" where
  "lstrip_sep s = dropWhile (\<lambda>c. c = 47) s"

definition dirname :: "pystr \<Rightarrow> pystr" where
  "dirname p =
     (let head = rev (dropWhile (\<lambda>c. c \<noteq> 47) (rev p))
      in if head \<noteq> [] \<and> head \<noteq> replicate (length head) 47
         then rev (dropWhile (\<lambda>c. c = 47) (rev head))
         else head)"

text \<open>
  The thirteen numeric fields of a 110-byte header, each read by \<open>int(header[a:b], 16)\<close>.
  The built-in is a parameter \<open>int16\<close> of the model, \<open>None\<close> standing for its
  \<open>ValueError\<close>; the loop uses the mode, the file size and the name size.
\<close>

definition header_fields :: "(bytes \<Rightarrow> int option) \<Rightarrow> bytes \<Rightarrow> (int \<times> int \<times> int) option" where
  "header_fields int16 header =
     Option.bind (int16 (slice header 6 14)) (\<lambda>inode.
     Option.bind (int16 (slice header 14 22)) (\<lambda>mode.
     Option.bind (int16 (slice header 22 30)) (\<lambda>uid.
     Option.bind (int16 (slice header 30 38)) (\<lambda>gid.
     Option.bind (int16 (slice header 38 46)) (\<lambda>nlink.
     Option.bind (int16 (slice header 46 54)) (\<lambda>mtime.
     Option.bind (int16 (slice header 54 62)) (\<lambda>filesize.
     Option.bind (int16 (slice header 62 70)) (\<lambda>devmajor.
     Option.bind (int16 (slice header 70 78)) (\<lambda>devminor.
     Option.bind (int16 (slice header 78 86)) (\<lambda>rdevmajor.
     Option.bind (int16 (slice header 86 94)) (\<lambda>rdevminor.
     Option.bind (int16 (slice header 94 102)) (\<lambda>namesize.
     Option.bind (int16 (slice header 102 110)) (\<lambda>check.
       Some (mode, filesize, namesize))))))))))))))"

definition cpio_magics :: "bytes set" where
  "cpio_magics = {map of_char ''070701'', map of_char ''070702''}"

text \<open>The path at which an entry is created: \<open>os.path.join(dest_dir, filename.lstrip('/'))\<close>.\<close>

definition cpio_full_path :: "pystr \<Rightarrow> pystr \<Rightarrow> pystr" where
  "cpio_full_path dest_dir filename = os_path_join dest_dir (lstrip_sep filename)"

text \<open>
  What the loop does with an entry once its name is known, from \<open>if filesize == 0\<close> on;
  \<open>s\<close> is what remains after the name and its padding.
\<close>

definition materialize :: "pystr \<Rightarrow> int \<Rightarrow> int \<Rightarrow> bytes \<Rightarrow> step_result" where
  "materialize full_path mode filesize s =
     (if filesize = 0 then
        (case mode_t mode of
           Inl e \<Rightarrow> Raise e
         | Inr m \<Rightarrow>
             if S_ISDIR m then Continue [MakeDirs full_path] s
             else if S_ISLNK m then
               (case f_read s filesize of
                  Inl e \<Rightarrow> Raise e
                | Inr (link, s') \<Rightarrow>
                    Continue [Symlink (utf8_ignore link) full_path]
                      (drop (nat ((4 - filesize mod 4) mod 4)) s'))
             else Continue [MakeDirs (dirname full_path), WriteFile full_path []] s)
      else
        (case f_read s filesize of
           Inl e \<Rightarrow> Raise e
         | Inr (d, s') \<Rightarrow>
             Continue [MakeDirs (dirname full_path), WriteFile full_path d]
               (drop (nat ((4 - filesize mod 4) mod 4)) s')))"

text \<open>One pass through the body of \<open>while True\<close>.\<close>

definition cpio_step :: "(bytes \<Rightarrow> int option) \<Rightarrow> pystr \<Rightarrow> bytes \<Rightarrow> step_result" where
  "cpio_step int16 dest_dir s =
     (let header = take 110 s
      in if length header < 110 then Stop EndOfData
         else if list_ex (\<lambda>b. 0x80 \<le> b) (slice header 0 6) then Raise UnicodeDecodeError
         else if slice header 0 6 \<notin> cpio_magics then Stop UnexpectedMagic
         else
           (case header_fields int16 header of
              None \<Rightarrow> Raise ValueError
            | Some (mode, filesize, namesize) \<Rightarrow>
                (case f_read (drop 110 s) namesize of
                   Inl e \<Rightarrow> Raise e
                 | Inr (filename_raw, s') \<Rightarrow>
                     let padding = (4 - namesize mod 4) mod 4;
                         filename = utf8_ignore (rstrip_nul filename_raw)
                     in if filename = str ''TRAILER!!!'' then Stop Trailer
                        else materialize (cpio_full_path dest_dir filename) mode filesize
                               (drop (nat padding) s'))))"

lemma cpio_step_consumes:
  assumes "cpio_step int16 dest_dir s = Continue ops s'"
  shows "length s' < length s"
proof -
  have m: "length t' \<le> length t" if "materialize p mode filesize t = Continue ops t'"
    for p mode filesize t t'
    using that
    by (auto simp: materialize_def f_read_def split: if_splits sum.splits)
  from assms have l: "110 \<le> length s"
    by (auto simp: cpio_step_def Let_def split: if_splits)
  from assms obtain n r t where "f_read (drop 110 s) n = Inr (r, t)"
    and "materialize (cpio_full_path dest_dir (utf8_ignore (rstrip_nul r))) (fst (the (header_fields int16 (take 110 s))))
           (fst (snd (the (header_fields int16 (take 110 s))))) (drop (nat ((4 - n mod 4) mod 4)) t)
         = Continue ops s'"
    by (auto simp: cpio_step_def Let_def split: if_splits option.splits sum.splits)
  then have "length s' \<le> length t" and "length t \<le> length (drop 110 s)"
    using m by (fastforce, auto simp: f_read_def split: if_splits)
  with l show ?thesis by simp
qed

text \<open>
  The loop: it returns the operations requested so far together with how it ended. An
  exception leaves the operations already performed in place.
\<close>

function extract_loop ::
    "(bytes \<Rightarrow> int option) \<Rightarrow> pystr \<Rightarrow> bytes \<Rightarrow> fs_op list \<Rightarrow> fs_op list \<times> outcome" where
  "extract_loop int16 dest_dir s done_ops =
     (case cpio_step int16 dest_dir s of
        Stop r \<Rightarrow> (done_ops, Stopped r)
      | Raise e \<Rightarrow> (done_ops, Raised e)
      | Continue ops s' \<Rightarrow> extract_loop int16 dest_dir s' (done_ops @ ops))"
  by pat_completeness auto
termination
  by (relation "measure (\<lambda>(int16, dest_dir, s, done_ops). length s)")
    (auto simp: cpio_step_consumes)

declare extract_loop.simps [simp del]

text \<open>
  The name of the record at the front of \<open>s\<close>, as the loop decodes it from the name
  size of the header: \<open>filename_raw.rstrip(b'\x00').decode('utf-8', errors='ignore')\<close>.
  It is \<open>None\<close> when a field of the header is not a number or the read raises.
\<close>

definition decoded_name :: "(bytes \<Rightarrow> int option) \<Rightarrow> bytes \<Rightarrow> pystr option" where
  "decoded_name int16 s =
     (case header_fields int16 (take 110 s) of
        None \<Rightarrow> None
      | Some (mode, filesize, namesize) \<Rightarrow>
          (case f_read (drop 110 s) namesize of
             Inl e \<Rightarrow> None
           | Inr (filename_raw, s') \<Rightarrow> Some (utf8_ignore (rstrip_nul filename_raw))))"

section \<open>Containment of paths\<close>

text \<open>
  Whether a path stays inside a root is judged on the components that remain after
  \<open>.\<close>, empty components and \<open>..\<close> are resolved as \<open>os.path.normpath\<close> resolves them:
  \<open>split_sep\<close> is \<open>p.split('/')\<close>, \<open>norm_push\<close> the body of the loop of \<open>normpath\<close> over
  the components, for a path that starts with a separator or not.
\<close>

fun split_sep :: "pystr \<Rightarrow> pystr list" where
  "split_sep [] = [[]]"
| "split_sep (c # cs) =
     (if c = 47 then [] # split_sep cs
      else (case split_sep cs of x # xs \<Rightarrow> (c # x) # xs | [] \<Rightarrow> [[c]]))"

definition norm_push :: "bool \<Rightarrow> pystr list \<Rightarrow> pystr \<Rightarrow> pystr list" where
  "norm_push initial_slashes new_comps component =
     (if component = [] \<or> component = str ''.'' then new_comps
      else if component \<noteq> str ''..'' \<or> (\<not> initial_slashes \<and> new_comps = [])
              \<or> (new_comps \<noteq> [] \<and> last new_comps = str ''..'')
      then new_comps @ [component]
      else if new_comps \<noteq> [] then butlast new_comps
      else new_comps)"

definition normpath_comps :: "pystr \<Rightarrow> pystr list" where
  "normpath_comps p = foldl (norm_push (take 1 p = [47])) [] (split_sep p)"

text \<open>
  A path is inside a root when both are absolute or both relative, the resolved root is
  a prefix of the resolved path, and what follows the prefix does not climb.
\<close>

definition inside :: "pystr \<Rightarrow> pystr \<Rightarrow> bool" where
  "inside root p =
     ((take 1 p = [47]) = (take 1 root = [47])
      \<and> prefix (normpath_comps root) (normpath_comps p)
      \<and> str ''..'' \<notin> set (drop (length (normpath_comps root)) (normpath_comps p)))"

section \<open>Archives to evaluate the extractor on\<close>

text \<open>
  The value of a non-empty string of hexadecimal digits, on which \<open>int(b, 16)\<close> agrees
  with it; it stands for the built-in where the extractor is evaluated.
\<close>

definition hex_val :: "byte \<Rightarrow> nat option" where
  "hex_val b =
     (let n = unat b
      in if 48 \<le> n \<and> n \<le> 57 then Some (n - 48)
         else if 97 \<le> n \<and> n \<le> 102 then Some (n - 87)
         else if 65 \<le> n \<and> n \<le> 70 then Some (n - 55)
         else None)"

fun hex_acc :: "int \<Rightarrow> bytes \<Rightarrow> int option" where
  "hex_acc a [] = Some a"
| "hex_acc a (b # bs) =
     (case hex_val b of None \<Rightarrow> None | Some v \<Rightarrow> hex_acc (16 * a + int v) bs)"

definition hex_int :: "bytes \<Rightarrow> int option" where
  "hex_int b = (if b = [] then None else hex_acc 0 b)"

text \<open>Eight hexadecimal digits, and a 110-byte header with a mode, a file size and a name size.\<close>

definition hex8 :: "nat \<Rightarrow> bytes" where
  "hex8 n =
     map (\<lambda>k. of_nat (hex_digit (n div 16 ^ k mod 16))) [7, 6, 5, 4, 3, 2, 1, 0]"

definition cpio_header :: "nat \<Rightarrow> nat \<Rightarrow> nat \<Rightarrow> bytes" where
  "cpio_header mode filesize namesize =
     map of_char ''070701'' @ hex8 1 @ hex8 mode @ hex8 0 @ hex8 0 @ hex8 1 @ hex8 0
     @ hex8 filesize @ hex8 0 @ hex8 0 @ hex8 0 @ hex8 0 @ hex8 namesize @ hex8 0"

definition trailer :: bytes where
  "trailer = cpio_header 0 0 11 @ map of_char ''TRAILER!!!'' @ [0] @ [0]"

text \<open>
  A symbolic link \<open>link\<close> to \<open>hi.txt\<close> (mode \<open>0120777\<close>, six bytes of target), and a
  regular file named \<open>../x\<close> that holds \<open>hi\<close> (mode \<open>0100644\<close>), each followed by the
  trailer.
\<close>

definition symlink_archive :: bytes where
  "symlink_archive =
     cpio_header 0xA1FF 6 5 @ map of_char ''link'' @ [0] @ [0, 0, 0]
     @ map of_char ''hi.txt'' @ [0, 0] @ trailer"

definition climbing_archive :: bytes where
  "climbing_archive =
     cpio_header 0x81A4 2 5 @ map of_char ''../x'' @ [0] @ [0, 0, 0]
     @ map of_char ''hi'' @ [0, 0] @ trailer"

text \<open>A regular file named \<open>/etc/passwd\<close> that holds \<open>hi\<close>, followed by the trailer.\<close>

definition passwd_archive :: bytes where
  "passwd_archive =
     cpio_header 0x81A4 2 12 @ map of_char ''/etc/passwd'' @ [0]
     @ map of_char ''hi'' @ [0, 0] @ trailer"

section \<open>Properties of the device-tree-blob offset\<close>

text \<open>
  Claim C4. For every header and buffer, the locator returns
  \<open>header_size + vendor_bootconfig_size + vendor_ramdisk_total_size\<close> whenever that value plus
  \<open>dtb_size\<close> is at most the length of the buffer, and the length of the buffer minus
  \<open>dtb_size\<close> otherwise.
\<close>

theorem get_dtb_offset_clamp:
  "(int (header_size h) + int (vendor_bootconfig_size h) + int (vendor_ramdisk_total_size h)
      + int (dtb_size h) \<le> int (length (data h))
    \<longrightarrow> get_dtb_offset h
        = int (header_size h) + int (vendor_bootconfig_size h) + int (vendor_ramdisk_total_size h))
   \<and> (\<not> int (header_size h) + int (vendor_bootconfig_size h) + int (vendor_ramdisk_total_size h)
      + int (dtb_size h) \<le> int (length (data h))
    \<longrightarrow> get_dtb_offset h = int (length (data h)) - int (dtb_size h))"
  by (simp add: get_dtb_offset_def Let_def)

theorem get_dtb_offset_clamp_witness:
  "get_dtb_offset small_header = 48
   \<and> get_dtb_offset (small_header\<lparr>dtb_size := 20\<rparr>) = 44
   \<and> get_dtb_offset (small_header\<lparr>dtb_size := 100\<rparr>) = - 36"
  using get_dtb_offset_clamp [of small_header]
    get_dtb_offset_clamp [of "small_header\<lparr>dtb_size := 20\<rparr>"]
    get_dtb_offset_clamp [of "small_header\<lparr>dtb_size := 100\<rparr>"]
  by (simp add: small_header_def)

section \<open>Properties of the binary patcher\<close>

subsection \<open>Searching a range of indices\<close>

lemma find_upt_Some:
  "List.find P [a ..< b] = Some j \<longleftrightarrow> a \<le> j \<and> j < b \<and> P j \<and> (\<forall>k. a \<le> k \<and> k < j \<longrightarrow> \<not> P k)"
proof
  assume "List.find P [a ..< b] = Some j"
  then obtain i where i: "i < length [a ..< b]" "P ([a ..< b] ! i)" "j = [a ..< b] ! i"
      "\<forall>m<i. \<not> P ([a ..< b] ! m)"
    unfolding find_Some_iff by blast
  from i(1) have il: "a + i < b" by simp
  with i(3) have j: "j = a + i" by simp
  have "\<not> P k" if k: "a \<le> k \<and> k < j" for k
  proof -
    from k j have lt: "k - a < i" by arith
    with il have "[a ..< b] ! (k - a) = k" using k by simp
    with i(4) lt show ?thesis by metis
  qed
  with i(2) i(3) j il show "a \<le> j \<and> j < b \<and> P j \<and> (\<forall>k. a \<le> k \<and> k < j \<longrightarrow> \<not> P k)"
    by simp
next
  assume a: "a \<le> j \<and> j < b \<and> P j \<and> (\<forall>k. a \<le> k \<and> k < j \<longrightarrow> \<not> P k)"
  have "j - a < length [a ..< b]" using a by simp arith
  moreover have e: "[a ..< b] ! (j - a) = j" using a by simp
  moreover have "P ([a ..< b] ! (j - a))" using a e by simp
  moreover have "\<forall>m<j - a. \<not> P ([a ..< b] ! m)"
  proof (intro allI impI)
    fix m assume m: "m < j - a"
    then have "a + m < b" using a by arith
    then have "[a ..< b] ! m = a + m" by (rule nth_upt)
    moreover have "a \<le> a + m \<and> a + m < j" using m by arith
    ultimately show "\<not> P ([a ..< b] ! m)" using a by simp
  qed
  ultimately show "List.find P [a ..< b] = Some j"
    unfolding find_Some_iff by metis
qed

lemma find_rev_upt_Some:
  "List.find P (rev [a ..< b]) = Some j \<longleftrightarrow> a \<le> j \<and> j < b \<and> P j \<and> (\<forall>k. j < k \<and> k < b \<longrightarrow> \<not> P k)"
proof -
  have nth: "rev [a ..< b] ! i = b - 1 - i" if "i < b - a" for i
    using that by (simp add: rev_nth)
  show ?thesis
  proof
    assume "List.find P (rev [a ..< b]) = Some j"
    then obtain i where i: "i < length (rev [a ..< b])" "P (rev [a ..< b] ! i)"
        "j = rev [a ..< b] ! i" "\<forall>m<i. \<not> P (rev [a ..< b] ! m)"
      unfolding find_Some_iff by blast
    from i(1) have il: "i < b - a" by simp
    with i(3) nth have j: "j = b - 1 - i" by simp
    have "\<not> P k" if k: "j < k \<and> k < b" for k
    proof -
      from k j il have lt: "b - 1 - k < i" by arith
      then have "b - 1 - k < b - a" using il by arith
      then have "rev [a ..< b] ! (b - 1 - k) = b - 1 - (b - 1 - k)" by (rule nth)
      also have "\<dots> = k" using k by arith
      finally show ?thesis using i(4) lt by metis
    qed
    moreover have "P j" using i(2) i(3) by simp
    moreover have "a \<le> j \<and> j < b" using j il by arith
    ultimately show "a \<le> j \<and> j < b \<and> P j \<and> (\<forall>k. j < k \<and> k < b \<longrightarrow> \<not> P k)" by simp
  next
    assume a: "a \<le> j \<and> j < b \<and> P j \<and> (\<forall>k. j < k \<and> k < b \<longrightarrow> \<not> P k)"
    have l: "b - 1 - j < b - a" using a by arith
    then have "rev [a ..< b] ! (b - 1 - j) = b - 1 - (b - 1 - j)" by (rule nth)
    also have "\<dots> = j" using a by arith
    finally have e: "rev [a ..< b] ! (b - 1 - j) = j" .
    have "\<not> P (rev [a ..< b] ! m)" if m: "m < b - 1 - j" for m
    proof -
      from m l have "m < b - a" by arith
      then have "rev [a ..< b] ! m = b - 1 - m" by (rule nth)
      moreover have "j < b - 1 - m \<and> b - 1 - m < b" using m by arith
      ultimately show ?thesis using a by simp
    qed
    moreover have "b - 1 - j < length (rev [a ..< b])" using l by simp
    moreover have "P (rev [a ..< b] ! (b - 1 - j))" using a e by simp
    ultimately show "List.find P (rev [a ..< b]) = Some j"
      unfolding find_Some_iff using e by metis
  qed
qed

subsection \<open>What \<open>find\<close> and \<open>rfind\<close> return\<close>

lemma occurs_at_bound: "sub \<noteq> [] \<Longrightarrow> occurs_at xs sub i \<Longrightarrow> i + length sub \<le> length xs"
proof -
  assume ne: "sub \<noteq> []" and oc: "occurs_at xs sub i"
  from oc have "length (take (length sub) (drop i xs)) = length sub"
    by (simp add: occurs_at_def slice_def)
  then have "min (length xs - i) (length sub) = length sub" by simp
  moreover from ne have "0 < length sub" by simp
  ultimately show ?thesis by arith
qed

lemma bytes_find_Some:
  "bytes_find xs sub s = Some j \<longleftrightarrow>
     s \<le> j \<and> j \<le> length xs \<and> occurs_at xs sub j \<and> (\<forall>k. s \<le> k \<and> k < j \<longrightarrow> \<not> occurs_at xs sub k)"
  unfolding bytes_find_def find_upt_Some by auto

lemma bytes_find_None:
  "bytes_find xs sub s = None \<longleftrightarrow> (\<forall>k. s \<le> k \<and> k \<le> length xs \<longrightarrow> \<not> occurs_at xs sub k)"
proof -
  have "set [s ..< length xs + 1] = {k. s \<le> k \<and> k \<le> length xs}" by auto
  then show ?thesis unfolding bytes_find_def find_None_iff by blast
qed

lemma bytes_rfind_Some:
  "bytes_rfind xs sub = Some j \<longleftrightarrow>
     j \<le> length xs \<and> occurs_at xs sub j \<and> (\<forall>k. j < k \<and> k \<le> length xs \<longrightarrow> \<not> occurs_at xs sub k)"
  unfolding bytes_rfind_def find_rev_upt_Some by auto

lemma bytes_rfind_None:
  "bytes_rfind xs sub = None \<longleftrightarrow> (\<forall>k. k \<le> length xs \<longrightarrow> \<not> occurs_at xs sub k)"
proof -
  have "set (rev [0 ..< length xs + 1]) = {k. k \<le> length xs}" by auto
  then show ?thesis unfolding bytes_rfind_def find_None_iff by blast
qed

subsection \<open>The two replacement steps\<close>

lemma pattern_lengths:
  "length pattern1_old = 6" "length pattern1_new = 6" "length pattern2_old = 4" "length pattern2_new = 4"
  by (simp_all add: pattern1_old_def pattern1_new_def pattern2_old_def pattern2_new_def)

lemma pattern1_old_occurs:
  "occurs_at d pattern1_old i \<Longrightarrow> i + 6 \<le> length d"
  using occurs_at_bound [of pattern1_old d i] by (simp add: pattern_lengths) (simp add: pattern1_old_def)

lemma pattern2_old_occurs:
  "occurs_at d pattern2_old i \<Longrightarrow> i + 4 \<le> length d"
  using occurs_at_bound [of pattern2_old d i] by (simp add: pattern_lengths) (simp add: pattern2_old_def)

lemma patch_first_found:
  assumes "bytes_rfind d pattern1_old = Some i"
  shows "patch_first d = (take i d @ pattern1_new @ drop (i + 6) d, True, i + 6)"
    and "occurs_at d pattern1_old i" and "\<forall>k. i < k \<longrightarrow> \<not> occurs_at d pattern1_old k"
    and "i + 6 \<le> length d"
proof -
  show "patch_first d = (take i d @ pattern1_new @ drop (i + 6) d, True, i + 6)"
    using assms by (simp add: patch_first_def pattern_lengths)
  from assms show oc: "occurs_at d pattern1_old i" by (simp add: bytes_rfind_Some)
  then show "i + 6 \<le> length d" by (rule pattern1_old_occurs)
  show "\<forall>k. i < k \<longrightarrow> \<not> occurs_at d pattern1_old k"
  proof (intro allI impI notI)
    fix k assume "i < k" and o: "occurs_at d pattern1_old k"
    from o have "k \<le> length d" using pattern1_old_occurs by fastforce
    with assms \<open>i < k\<close> o show False by (simp add: bytes_rfind_Some)
  qed
qed

lemma patch_first_absent:
  assumes "bytes_rfind d pattern1_old = None"
  shows "patch_first d = (d, False, 0)" and "\<forall>k. \<not> occurs_at d pattern1_old k"
proof -
  show "patch_first d = (d, False, 0)" using assms by (simp add: patch_first_def)
  show "\<forall>k. \<not> occurs_at d pattern1_old k"
  proof (intro allI notI)
    fix k assume o: "occurs_at d pattern1_old k"
    from o have "k \<le> length d" using pattern1_old_occurs by fastforce
    with assms o show False by (simp add: bytes_rfind_None)
  qed
qed

lemma patch_first_length: "length (fst (patch_first d)) = length d"
proof (cases "bytes_rfind d pattern1_old")
  case None then show ?thesis by (simp add: patch_first_absent)
next
  case (Some i)
  from patch_first_found(1,4) [OF Some] show ?thesis by (simp add: pattern_lengths)
qed

lemma patch_second_found:
  assumes "bytes_find mid pattern2_old c = Some j"
  shows "patch_second (mid, m, c) = (take j mid @ pattern2_new @ drop (j + 4) mid, True)"
    and "c \<le> j" and "occurs_at mid pattern2_old j"
    and "\<forall>k. c \<le> k \<and> k < j \<longrightarrow> \<not> occurs_at mid pattern2_old k"
    and "j + 4 \<le> length mid"
proof -
  from assms show cj: "c \<le> j" and oc: "occurs_at mid pattern2_old j"
    and "\<forall>k. c \<le> k \<and> k < j \<longrightarrow> \<not> occurs_at mid pattern2_old k"
    by (simp_all add: bytes_find_Some)
  from oc show b: "j + 4 \<le> length mid" by (rule pattern2_old_occurs)
  from cj b have "c < length mid" by arith
  with assms show "patch_second (mid, m, c) = (take j mid @ pattern2_new @ drop (j + 4) mid, True)"
    by (simp add: patch_second_def pattern_lengths)
qed

lemma patch_second_absent:
  assumes "bytes_find mid pattern2_old c = None"
  shows "patch_second (mid, m, c) = (mid, m)"
    and "\<forall>k. c \<le> k \<longrightarrow> \<not> occurs_at mid pattern2_old k"
proof -
  show "patch_second (mid, m, c) = (mid, m)" using assms by (simp add: patch_second_def)
  show "\<forall>k. c \<le> k \<longrightarrow> \<not> occurs_at mid pattern2_old k"
  proof (intro allI impI notI)
    fix k assume "c \<le> k" and o: "occurs_at mid pattern2_old k"
    from o have "k \<le> length mid" using pattern2_old_occurs by fastforce
    with assms \<open>c \<le> k\<close> o show False by (simp add: bytes_find_None)
  qed
qed

lemma occurs_after_replacement:
  assumes "i + length new \<le> length d" "i + length new \<le> k"
  shows "occurs_at (take i d @ new @ drop (i + length new) d) sub k = occurs_at d sub k"
proof -
  have "drop k (take i d @ new @ drop (i + length new) d) = drop k d"
    using assms by (simp add: min_def)
  then show ?thesis by (simp add: occurs_at_def slice_def)
qed

lemma replace_length:
  "i + length new \<le> length d \<Longrightarrow> length (take i d @ new @ drop (i + length new) d) = length d"
  by simp

lemma replace_nth:
  assumes "i + length new \<le> length d" "k < length d" "k < i \<or> i + length new \<le> k"
  shows "(take i d @ new @ drop (i + length new) d) ! k = d ! k"
proof (cases "k < i")
  case True
  with assms(1) show ?thesis by (simp add: nth_append)
next
  case False
  with assms(3) have ge: "i + length new \<le> k" by simp
  from assms(1) have li: "length (take i d) = i" by simp
  from ge li have "(take i d @ new @ drop (i + length new) d) ! k
      = (new @ drop (i + length new) d) ! (k - i)"
    by (simp add: nth_append)
  also have "\<dots> = drop (i + length new) d ! (k - i - length new)"
  proof -
    from ge have "\<not> k - i < length new" by arith
    then show ?thesis by (simp add: nth_append)
  qed
  also have "\<dots> = d ! (i + length new + (k - i - length new))"
    using assms(1) by (simp only: nth_drop)
  also have "i + length new + (k - i - length new) = k" using ge by arith
  finally show ?thesis .
qed

lemma patch_bytes_modified:
  "snd (patch_bytes d) \<longleftrightarrow>
     bytes_rfind d pattern1_old \<noteq> None
     \<or> (case patch_first d of (mid, m, cursor) \<Rightarrow> bytes_find mid pattern2_old cursor \<noteq> None)"
proof -
  obtain mid m cursor where pf: "patch_first d = (mid, m, cursor)"
    by (cases "patch_first d") auto
  have m: "m \<longleftrightarrow> bytes_rfind d pattern1_old \<noteq> None"
  proof (cases "bytes_rfind d pattern1_old")
    case None
    with patch_first_absent(1) [OF None] pf show ?thesis by simp
  next
    case (Some i)
    with patch_first_found(1) [OF Some] pf show ?thesis by simp
  qed
  show ?thesis
  proof (cases "bytes_find mid pattern2_old cursor")
    case None
    with patch_second_absent(1) [OF None, of m] pf m show ?thesis by (simp add: patch_bytes_def)
  next
    case (Some j)
    with patch_second_found(1) [OF Some, of m] pf show ?thesis by (simp add: patch_bytes_def)
  qed
qed

lemma patch_first_nth:
  assumes "k < length d" "\<forall>i. bytes_rfind d pattern1_old = Some i \<longrightarrow> k < i \<or> i + 6 \<le> k"
  shows "fst (patch_first d) ! k = d ! k"
proof (cases "bytes_rfind d pattern1_old")
  case None
  then show ?thesis by (simp add: patch_first_absent)
next
  case (Some i)
  from assms(2) Some have "k < i \<or> i + length pattern1_new \<le> k" by (simp add: pattern_lengths)
  moreover from patch_first_found(4) [OF Some] have "i + length pattern1_new \<le> length d"
    by (simp add: pattern_lengths)
  ultimately have "(take i d @ pattern1_new @ drop (i + length pattern1_new) d) ! k = d ! k"
    using assms(1) by (simp add: replace_nth)
  with patch_first_found(1) [OF Some] show ?thesis by (simp add: pattern_lengths)
qed

lemma patch_second_length: "length (fst (patch_second (mid, m, c))) = length mid"
proof (cases "bytes_find mid pattern2_old c")
  case None
  then show ?thesis by (simp add: patch_second_absent)
next
  case (Some j)
  from patch_second_found(1,5) [OF Some] show ?thesis by (simp add: pattern_lengths)
qed

lemma patch_second_nth:
  assumes "k < length mid" "\<forall>j. bytes_find mid pattern2_old c = Some j \<longrightarrow> k < j \<or> j + 4 \<le> k"
  shows "fst (patch_second (mid, m, c)) ! k = mid ! k"
proof (cases "bytes_find mid pattern2_old c")
  case None
  then show ?thesis by (simp add: patch_second_absent)
next
  case (Some j)
  from assms(2) Some have "k < j \<or> j + length pattern2_new \<le> k" by (simp add: pattern_lengths)
  moreover from patch_second_found(5) [OF Some] have "j + length pattern2_new \<le> length mid"
    by (simp add: pattern_lengths)
  ultimately have "(take j mid @ pattern2_new @ drop (j + length pattern2_new) mid) ! k = mid ! k"
    using assms(1) by (simp add: replace_nth)
  with patch_second_found(1) [OF Some, of m] show ?thesis by (simp add: pattern_lengths)
qed

subsection \<open>Where the patcher replaces\<close>

text \<open>
  Claim C8. For every blob, the patcher replaces the last occurrence of the first pattern's
  old bytes and sets the search cursor just after it (0 when the pattern is absent); it
  then replaces the first occurrence of the second pattern's old bytes at or after the
  cursor, never one before it. The occurrences of the second pattern at or after the cursor
  are the same in the blob before and after the first replacement, and the second step
  depends on the first only through the cursor.
\<close>

theorem patch_bytes_positions:
  "(case bytes_rfind d pattern1_old of
      Some i \<Rightarrow>
        occurs_at d pattern1_old i \<and> (\<forall>k. i < k \<longrightarrow> \<not> occurs_at d pattern1_old k)
        \<and> patch_first d = (take i d @ pattern1_new @ drop (i + 6) d, True, i + 6)
    | None \<Rightarrow> (\<forall>k. \<not> occurs_at d pattern1_old k) \<and> patch_first d = (d, False, 0))
   \<and> (case patch_first d of (mid, m, cursor) \<Rightarrow>
        (\<forall>k. cursor \<le> k \<longrightarrow> occurs_at mid pattern2_old k = occurs_at d pattern2_old k)
        \<and> (case bytes_find mid pattern2_old cursor of
             Some j \<Rightarrow>
               cursor \<le> j \<and> occurs_at mid pattern2_old j
               \<and> (\<forall>k. cursor \<le> k \<and> k < j \<longrightarrow> \<not> occurs_at mid pattern2_old k)
               \<and> patch_bytes d = (take j mid @ pattern2_new @ drop (j + 4) mid, True)
           | None \<Rightarrow>
               (\<forall>k. cursor \<le> k \<longrightarrow> \<not> occurs_at mid pattern2_old k)
               \<and> patch_bytes d = (mid, m)))"
proof (rule conjI)
  show "case bytes_rfind d pattern1_old of
      Some i \<Rightarrow>
        occurs_at d pattern1_old i \<and> (\<forall>k. i < k \<longrightarrow> \<not> occurs_at d pattern1_old k)
        \<and> patch_first d = (take i d @ pattern1_new @ drop (i + 6) d, True, i + 6)
    | None \<Rightarrow> (\<forall>k. \<not> occurs_at d pattern1_old k) \<and> patch_first d = (d, False, 0)"
  proof (cases "bytes_rfind d pattern1_old")
    case None
    with patch_first_absent [OF None] show ?thesis by simp
  next
    case (Some i)
    with patch_first_found [OF Some] show ?thesis by simp
  qed
next
  obtain mid m cursor where pf: "patch_first d = (mid, m, cursor)"
    by (cases "patch_first d") auto
  have same: "\<forall>k. cursor \<le> k \<longrightarrow> occurs_at mid pattern2_old k = occurs_at d pattern2_old k"
  proof (cases "bytes_rfind d pattern1_old")
    case None
    with patch_first_absent(1) [OF None] pf show ?thesis by simp
  next
    case (Some i)
    from patch_first_found(1) [OF Some] pf
    have mid: "mid = take i d @ pattern1_new @ drop (i + length pattern1_new) d"
      and c: "cursor = i + length pattern1_new"
      by (simp_all add: pattern_lengths)
    from patch_first_found(4) [OF Some] have "i + length pattern1_new \<le> length d"
      by (simp add: pattern_lengths)
    then show ?thesis unfolding mid c by (simp add: occurs_after_replacement)
  qed
  have second: "case bytes_find mid pattern2_old cursor of
             Some j \<Rightarrow>
               cursor \<le> j \<and> occurs_at mid pattern2_old j
               \<and> (\<forall>k. cursor \<le> k \<and> k < j \<longrightarrow> \<not> occurs_at mid pattern2_old k)
               \<and> patch_bytes d = (take j mid @ pattern2_new @ drop (j + 4) mid, True)
           | None \<Rightarrow>
               (\<forall>k. cursor \<le> k \<longrightarrow> \<not> occurs_at mid pattern2_old k)
               \<and> patch_bytes d = (mid, m)"
  proof (cases "bytes_find mid pattern2_old cursor")
    case None
    with patch_second_absent(1) [OF None, of m] patch_second_absent(2) [OF None] pf show ?thesis by (simp add: patch_bytes_def)
  next
    case (Some j)
    with patch_second_found(1) [OF Some, of m] patch_second_found(2-4) [OF Some] pf show ?thesis by (simp add: patch_bytes_def)
  qed
  from same second pf
  show "case patch_first d of (mid, m, cursor) \<Rightarrow>
        (\<forall>k. cursor \<le> k \<longrightarrow> occurs_at mid pattern2_old k = occurs_at d pattern2_old k)
        \<and> (case bytes_find mid pattern2_old cursor of
             Some j \<Rightarrow>
               cursor \<le> j \<and> occurs_at mid pattern2_old j
               \<and> (\<forall>k. cursor \<le> k \<and> k < j \<longrightarrow> \<not> occurs_at mid pattern2_old k)
               \<and> patch_bytes d = (take j mid @ pattern2_new @ drop (j + 4) mid, True)
           | None \<Rightarrow>
               (\<forall>k. cursor \<le> k \<longrightarrow> \<not> occurs_at mid pattern2_old k)
               \<and> patch_bytes d = (mid, m))"
    by simp
qed

theorem patch_bytes_positions_witness:
  "patch_first blob
     = (pattern2_old @ pattern1_old @ [7] @ pattern1_new @ pattern2_old @ [9] @ pattern2_old, True, 17)
   \<and> patch_bytes blob
     = (pattern2_old @ pattern1_old @ [7] @ pattern1_new @ pattern2_new @ [9] @ pattern2_old, True)"
proof -
  note t = patch_bytes_positions [of blob]
  have r: "bytes_rfind blob pattern1_old = Some 11" by code_simp
  have e1: "take 11 blob @ pattern1_new @ drop 17 blob
      = pattern2_old @ pattern1_old @ [7] @ pattern1_new @ pattern2_old @ [9] @ pattern2_old"
    by code_simp
  from t r have "patch_first blob = (take 11 blob @ pattern1_new @ drop 17 blob, True, 17)"
    by simp
  with e1 have pf: "patch_first blob
     = (pattern2_old @ pattern1_old @ [7] @ pattern1_new @ pattern2_old @ [9] @ pattern2_old, True, 17)"
    by simp
  have f: "bytes_find
      (pattern2_old @ pattern1_old @ [7] @ pattern1_new @ pattern2_old @ [9] @ pattern2_old)
      pattern2_old 17 = Some 17"
    by code_simp
  have e2: "take 17 (pattern2_old @ pattern1_old @ [7] @ pattern1_new @ pattern2_old @ [9] @ pattern2_old)
        @ pattern2_new
        @ drop 21 (pattern2_old @ pattern1_old @ [7] @ pattern1_new @ pattern2_old @ [9] @ pattern2_old)
      = pattern2_old @ pattern1_old @ [7] @ pattern1_new @ pattern2_new @ [9] @ pattern2_old"
    by code_simp
  from t have "case patch_first blob of (mid, m, cursor) \<Rightarrow>
        (\<forall>k. cursor \<le> k \<longrightarrow> occurs_at mid pattern2_old k = occurs_at blob pattern2_old k)
        \<and> (case bytes_find mid pattern2_old cursor of
             Some j \<Rightarrow>
               cursor \<le> j \<and> occurs_at mid pattern2_old j
               \<and> (\<forall>k. cursor \<le> k \<and> k < j \<longrightarrow> \<not> occurs_at mid pattern2_old k)
               \<and> patch_bytes blob = (take j mid @ pattern2_new @ drop (j + 4) mid, True)
           | None \<Rightarrow>
               (\<forall>k. cursor \<le> k \<longrightarrow> \<not> occurs_at mid pattern2_old k)
               \<and> patch_bytes blob = (mid, m))"
    by (rule conjunct2)
  then have "patch_bytes blob
     = (take 17 (pattern2_old @ pattern1_old @ [7] @ pattern1_new @ pattern2_old @ [9] @ pattern2_old)
        @ pattern2_new
        @ drop 21 (pattern2_old @ pattern1_old @ [7] @ pattern1_new @ pattern2_old @ [9] @ pattern2_old),
        True)"
    unfolding pf prod.case f option.case by simp
  with e2 pf show ?thesis by simp
qed

subsection \<open>When the patcher writes\<close>

text \<open>
  Claim C9. The patcher writes the blob back exactly when one of the two replacements
  occurred; when neither pattern is found, or the file is absent, the files are as before
  and nothing is written.
\<close>

theorem patch_adaptive_ts_writes:
  "(fs p = None \<longrightarrow> patch_adaptive_ts fs p = (fs, []))
   \<and> (\<forall>d. fs p = Some d \<longrightarrow>
        (if bytes_rfind d pattern1_old \<noteq> None
            \<or> (case patch_first d of (mid, m, cursor) \<Rightarrow> bytes_find mid pattern2_old cursor \<noteq> None)
         then patch_adaptive_ts fs p
              = (fs(p \<mapsto> fst (patch_bytes d)), [Write p (fst (patch_bytes d))])
         else patch_adaptive_ts fs p = (fs, [])))"
proof (intro conjI allI impI)
  assume "fs p = None"
  then show "patch_adaptive_ts fs p = (fs, [])" by (simp add: patch_adaptive_ts_def)
next
  fix d assume d: "fs p = Some d"
  obtain out md where pb: "patch_bytes d = (out, md)" by (cases "patch_bytes d") auto
  from patch_bytes_modified [of d] pb
  have "md \<longleftrightarrow> bytes_rfind d pattern1_old \<noteq> None
     \<or> (case patch_first d of (mid, m, cursor) \<Rightarrow> bytes_find mid pattern2_old cursor \<noteq> None)"
    by simp
  with d pb
  show "if bytes_rfind d pattern1_old \<noteq> None
            \<or> (case patch_first d of (mid, m, cursor) \<Rightarrow> bytes_find mid pattern2_old cursor \<noteq> None)
         then patch_adaptive_ts fs p
              = (fs(p \<mapsto> fst (patch_bytes d)), [Write p (fst (patch_bytes d))])
         else patch_adaptive_ts fs p = (fs, [])"
    by (simp add: patch_adaptive_ts_def)
qed

theorem patch_adaptive_ts_writes_witness:
  "patch_adaptive_ts [str ''adaptive-ts.ko'' \<mapsto> blob] (str ''adaptive-ts.ko'')
     = ([str ''adaptive-ts.ko'' \<mapsto> fst (patch_bytes blob)],
        [Write (str ''adaptive-ts.ko'') (fst (patch_bytes blob))])
   \<and> patch_adaptive_ts [str ''adaptive-ts.ko'' \<mapsto> [1, 2, 3]] (str ''adaptive-ts.ko'')
     = ([str ''adaptive-ts.ko'' \<mapsto> [1, 2, 3]], [])
   \<and> patch_adaptive_ts Map.empty (str ''adaptive-ts.ko'') = (Map.empty, [])"
proof -
  have r: "bytes_rfind blob pattern1_old = Some 11" by code_simp
  have n1: "bytes_rfind [1, 2, 3] pattern1_old = None" by code_simp
  have n2: "patch_first [1, 2, 3] = ([1, 2, 3], False, 0)" by code_simp
  have n3: "bytes_find [1, 2, 3] pattern2_old 0 = None" by code_simp
  from patch_adaptive_ts_writes [of "[str ''adaptive-ts.ko'' \<mapsto> blob]" "str ''adaptive-ts.ko''"] r
  have a: "patch_adaptive_ts [str ''adaptive-ts.ko'' \<mapsto> blob] (str ''adaptive-ts.ko'')
     = ([str ''adaptive-ts.ko'' \<mapsto> fst (patch_bytes blob)],
        [Write (str ''adaptive-ts.ko'') (fst (patch_bytes blob))])"
    by simp
  from patch_adaptive_ts_writes [of "[str ''adaptive-ts.ko'' \<mapsto> [1, 2, 3]]" "str ''adaptive-ts.ko''"]
    n1 n2 n3
  have b: "patch_adaptive_ts [str ''adaptive-ts.ko'' \<mapsto> [1, 2, 3]] (str ''adaptive-ts.ko'')
     = ([str ''adaptive-ts.ko'' \<mapsto> [1, 2, 3]], [])"
    by simp
  from patch_adaptive_ts_writes [of Map.empty "str ''adaptive-ts.ko''"]
  have c: "patch_adaptive_ts Map.empty (str ''adaptive-ts.ko'') = (Map.empty, [])"
    by simp
  from a b c show ?thesis by simp
qed

subsection \<open>What the patcher leaves alone\<close>

text \<open>
  Claim C10. Old and new bytes have the same length in both patterns (6 and 4 bytes), so
  the patched blob is as long as the original, and every byte outside the replaced spans
  is unchanged.
\<close>

theorem patch_bytes_frame:
  "length pattern1_old = 6 \<and> length pattern1_new = 6
   \<and> length pattern2_old = 4 \<and> length pattern2_new = 4
   \<and> length (fst (patch_bytes d)) = length d
   \<and> (\<forall>k<length d.
        (\<forall>i. bytes_rfind d pattern1_old = Some i \<longrightarrow> k < i \<or> i + 6 \<le> k)
        \<and> (\<forall>j. bytes_find (fst (patch_first d)) pattern2_old (snd (snd (patch_first d))) = Some j
               \<longrightarrow> k < j \<or> j + 4 \<le> k)
        \<longrightarrow> fst (patch_bytes d) ! k = d ! k)"
proof -
  obtain mid m c where pf: "patch_first d = (mid, m, c)" by (cases "patch_first d") auto
  from patch_first_length [of d] pf have lm: "length mid = length d" by simp
  have len: "length (fst (patch_bytes d)) = length d"
    using pf lm by (simp add: patch_bytes_def patch_second_length)
  have nth: "fst (patch_bytes d) ! k = d ! k"
    if k: "k < length d"
      and s1: "\<forall>i. bytes_rfind d pattern1_old = Some i \<longrightarrow> k < i \<or> i + 6 \<le> k"
      and s2: "\<forall>j. bytes_find (fst (patch_first d)) pattern2_old (snd (snd (patch_first d))) = Some j
               \<longrightarrow> k < j \<or> j + 4 \<le> k" for k
  proof -
    from s2 pf have "\<forall>j. bytes_find mid pattern2_old c = Some j \<longrightarrow> k < j \<or> j + 4 \<le> k" by simp
    with k lm have "fst (patch_second (mid, m, c)) ! k = mid ! k" by (simp add: patch_second_nth)
    moreover from patch_first_nth [OF k s1] pf have "mid ! k = d ! k" by simp
    ultimately show ?thesis using pf by (simp add: patch_bytes_def)
  qed
  from len nth show ?thesis by (simp add: pattern_lengths)
qed

theorem patch_bytes_frame_witness:
  "length (fst (patch_bytes blob)) = 26
   \<and> fst (patch_bytes blob) ! 0 = 0x20 \<and> fst (patch_bytes blob) ! 25 = 0x52"
proof -
  have r: "bytes_rfind blob pattern1_old = Some 11" by code_simp
  have pf: "patch_first blob
     = (pattern2_old @ pattern1_old @ [7] @ pattern1_new @ pattern2_old @ [9] @ pattern2_old, True, 17)"
    by code_simp
  have f: "bytes_find
      (pattern2_old @ pattern1_old @ [7] @ pattern1_new @ pattern2_old @ [9] @ pattern2_old)
      pattern2_old 17 = Some 17"
    by code_simp
  have l: "length blob = 26" and b0: "blob ! 0 = 0x20" and b25: "blob ! 25 = 0x52"
    by code_simp+
  note t = patch_bytes_frame [of blob]
  from t l have "length (fst (patch_bytes blob)) = 26" by simp
  moreover from t l r pf f have "fst (patch_bytes blob) ! 0 = blob ! 0"
    by simp
  moreover from t l r pf f have "fst (patch_bytes blob) ! 25 = blob ! 25"
    by simp
  ultimately show ?thesis using b0 b25 by simp
qed

section \<open>Properties of the ramdisk table\<close>

lemma length_slice: "length (slice xs a b) = min (b - a) (length xs - a)"
  by (simp add: slice_def)

lemma entry_width_76: "entry_width = 76"
  by (simp add: entry_width_def VENDOR_RAMDISK_NAME_SIZE_def BOOT_ID_SIZE_def)

lemma bind_err_Inr [simp]: "bind_err (Inr x) f = f x"
  by (simp add: bind_err_def)

lemma bind_err_Inl [simp]: "bind_err (Inl e) f = Inl e"
  by (simp add: bind_err_def)

lemma unpack_I_4: "length b = 4 \<Longrightarrow> unpack_I b = Inr (le_nat b)"
  by (simp add: unpack_I_def)

lemma VendorRamdiskEntry_init_total:
  assumes "12 \<le> length d"
  shows "\<exists>e. VendorRamdiskEntry_init d = Inr e"
proof -
  from assms have "length (slice d 0 4) = 4" "length (slice d 4 8) = 4" "length (slice d 8 12) = 4"
    by (simp_all add: length_slice)
  then show ?thesis by (simp add: VendorRamdiskEntry_init_def unpack_I_4)
qed

lemma entries_from_full:
  "table_offset h + (i + k) * 76 \<le> length (data h) \<Longrightarrow>
   \<exists>es. entries_from h i k = Inr es \<and> length es = k
     \<and> (\<forall>j<k. VendorRamdiskEntry_init
                  (slice (data h) (table_offset h + (i + j) * 76) (table_offset h + (i + j) * 76 + 76))
                = Inr (es ! j))"
proof (induction k arbitrary: i)
  case 0
  then show ?case by simp
next
  case (Suc k)
  let ?s = "slice (data h) (table_offset h + i * 76) (table_offset h + i * 76 + 76)"
  from Suc.prems have len: "length ?s = 76" by (simp add: length_slice)
  then obtain e where e: "VendorRamdiskEntry_init ?s = Inr e"
    using VendorRamdiskEntry_init_total [of ?s] by auto
  from Suc.prems have "table_offset h + (i + 1 + k) * 76 \<le> length (data h)" by simp
  from Suc.IH [OF this] obtain es where es: "entries_from h (i + 1) k = Inr es" "length es = k"
    "\<forall>j<k. VendorRamdiskEntry_init
                  (slice (data h) (table_offset h + (i + 1 + j) * 76) (table_offset h + (i + 1 + j) * 76 + 76))
                = Inr (es ! j)"
    by blast
  have r: "entries_from h i (Suc k) = Inr (e # es)"
    using len e es(1) by (simp add: entry_width_76 Let_def)
  have "VendorRamdiskEntry_init
                  (slice (data h) (table_offset h + (i + j) * 76) (table_offset h + (i + j) * 76 + 76))
                = Inr ((e # es) ! j)" if j: "j < Suc k" for j
  proof (cases j)
    case 0
    with e show ?thesis by simp
  next
    case (Suc m)
    with j have "m < k" by simp
    with es(3) have "VendorRamdiskEntry_init
                  (slice (data h) (table_offset h + (i + 1 + m) * 76) (table_offset h + (i + 1 + m) * 76 + 76))
                = Inr (es ! m)" by blast
    with Suc show ?thesis by simp
  qed
  with r es(2) show ?case by simp
qed

lemma entries_from_truncated:
  "i \<le> (length (data h) - table_offset h) div 76 \<Longrightarrow>
   length (data h) < table_offset h + (i + Suc k) * 76 \<Longrightarrow>
   entries_from h i (Suc k) = Inl (TruncatedTable ((length (data h) - table_offset h) div 76))"
proof (induction k arbitrary: i)
  case 0
  define q where "q = (length (data h) - table_offset h) div 76"
  let ?s = "slice (data h) (table_offset h + i * 76) (table_offset h + i * 76 + 76)"
  from 0 have iq: "i \<le> q" and lt: "length (data h) < table_offset h + i * 76 + 76"
    by (simp_all add: q_def)
  have "i = q"
  proof (rule ccontr)
    assume "i \<noteq> q"
    with iq have "(i + 1) * 76 \<le> q * 76" by simp
    moreover have "q * 76 \<le> length (data h) - table_offset h"
      unfolding q_def by (rule div_times_less_eq_dividend)
    ultimately have "i * 76 + 76 \<le> length (data h) - table_offset h" by simp
    with lt show False by arith
  qed
  moreover from lt have "length ?s < 76" by (simp add: length_slice)
  ultimately show ?case by (simp add: entry_width_76 Let_def q_def)
next
  case (Suc k)
  define q where "q = (length (data h) - table_offset h) div 76"
  define r where "r = (length (data h) - table_offset h) mod 76"
  have qr: "length (data h) - table_offset h = q * 76 + r" and r: "r < 76"
    unfolding q_def r_def by simp_all
  let ?s = "slice (data h) (table_offset h + i * 76) (table_offset h + i * 76 + 76)"
  from Suc.prems(1) have iq: "i \<le> q" by (simp add: q_def)
  show ?case
  proof (cases "i = q")
    case True
    with qr r have "length (data h) < table_offset h + i * 76 + 76" by arith
    then have "length ?s < 76" by (simp add: length_slice)
    with True show ?thesis by (simp add: entry_width_76 Let_def q_def)
  next
    case False
    with iq have lt: "i + 1 \<le> q" by simp
    then have "(i + 1) * 76 \<le> q * 76" by (rule mult_le_mono1)
    with qr have "table_offset h + i * 76 + 76 \<le> length (data h)" by simp
    then have len: "length ?s = 76" by (simp add: length_slice)
    then obtain e where e: "VendorRamdiskEntry_init ?s = Inr e"
      using VendorRamdiskEntry_init_total [of ?s] by auto
    from Suc.prems(2) have "length (data h) < table_offset h + (i + 1 + Suc k) * 76" by simp
    from Suc.IH [OF lt [unfolded q_def] this]
    have "entries_from h (i + 1) (Suc k) = Inl (TruncatedTable q)" by (simp add: q_def)
    moreover have "entries_from h i (Suc (Suc k))
        = bind_err (VendorRamdiskEntry_init ?s) (\<lambda>entry.
              bind_err (entries_from h (i + 1) (Suc k)) (\<lambda>entries. Inr (entry # entries)))"
      using len by (simp add: entry_width_76 Let_def del: entries_from.simps(2))
        (simp add: entries_from.simps(2) [of h i "Suc k"] entry_width_76 Let_def del: entries_from.simps(2))
    ultimately show ?thesis using e by (simp add: q_def del: entries_from.simps)
  qed
qed

section \<open>Properties of the header parser\<close>

lemma unpack_I_Inr: "unpack_I b = Inr v \<Longrightarrow> length b = 4"
  by (simp add: unpack_I_def split: if_splits)

lemma VendorBootHeader_init_Inr:
  assumes "VendorBootHeader_init d = Inr h"
  shows "slice d 0 8 = BOOT_MAGIC_VENDOR_BOOT" and "2172 \<le> length d"
    and "data h = d" and "table_offset h = 2172"
    and "cmdline h = utf8_ignore (rstrip_nul (slice d 28 2076))"
    and "product_name h = utf8_ignore (rstrip_nul (slice d 2080 2144))"
proof -
  from assms show m: "slice d 0 8 = BOOT_MAGIC_VENDOR_BOOT"
    by (simp add: VendorBootHeader_init_def split: if_splits)
  from assms m obtain a1 a2 a3 a4 a5 a6 a7 a8 a9 a10 a11 a12 where
    u: "unpack_I (slice d 2168 2172) = Inr a12"
    and h: "h = \<lparr>data = d, magic = slice d 0 8,
               header_version = a1, page_size = a2, kernel_load_addr = a3,
               ramdisk_load_addr = a4, vendor_ramdisk_total_size = a5,
               cmdline = utf8_ignore (rstrip_nul (slice d 28 (28 + VENDOR_RAMDISK_CMDLINE_SIZE))),
               tags_load_addr = a6,
               product_name =
                 utf8_ignore (rstrip_nul (slice d 2080 (2080 + BOOT_PRODUCT_NAME_SIZE))),
               header_size = a7, dtb_size = a8, dtb_load_addr = a9,
               vendor_ramdisk_table_size = a10, vendor_ramdisk_table_num_entries = a11,
               vendor_bootconfig_size = a12, table_offset = 2172\<rparr>"
    by (auto simp: VendorBootHeader_init_def bind_err_def split: sum.splits)
  from unpack_I_Inr [OF u] show "2172 \<le> length d" by (simp add: length_slice)
  from h show "data h = d" "table_offset h = 2172"
    "cmdline h = utf8_ignore (rstrip_nul (slice d 28 2076))"
    "product_name h = utf8_ignore (rstrip_nul (slice d 2080 2144))"
    by (simp_all add: VENDOR_RAMDISK_CMDLINE_SIZE_def BOOT_PRODUCT_NAME_SIZE_def)
qed

lemma VendorBootHeader_init_accepts:
  assumes "slice d 0 8 = BOOT_MAGIC_VENDOR_BOOT" "2172 \<le> length d"
  shows "\<exists>h. VendorBootHeader_init d = Inr h"
proof -
  from assms(2) have "length (slice d 8 12) = 4" "length (slice d 12 16) = 4"
    "length (slice d 16 20) = 4" "length (slice d 20 24) = 4" "length (slice d 24 28) = 4"
    "length (slice d 2076 2080) = 4" "length (slice d 2144 2148) = 4"
    "length (slice d 2148 2152) = 4" "length (slice d 2152 2160) = 8"
    "length (slice d 2160 2164) = 4" "length (slice d 2164 2168) = 4"
    "length (slice d 2168 2172) = 4"
    by (simp_all add: length_slice)
  with assms(1) show ?thesis
    by (simp add: VendorBootHeader_init_def unpack_I_def unpack_Q_def VENDOR_RAMDISK_CMDLINE_SIZE_def)
qed

lemma VendorBootHeader_init_num_entries:
  assumes "VendorBootHeader_init d = Inr h"
  shows "vendor_ramdisk_table_num_entries h = le_nat (slice d 2164 2168)"
proof -
  from VendorBootHeader_init_Inr(1) [OF assms] assms
  obtain a where u: "unpack_I (slice d 2164 2168) = Inr a"
    and n: "vendor_ramdisk_table_num_entries h = a"
    by (auto simp: VendorBootHeader_init_def bind_err_def split: sum.splits)
  from u have "a = le_nat (slice d 2164 2168)" by (simp add: unpack_I_def split: if_splits)
  with n show ?thesis by simp
qed

lemma rstrip_nul_zeros: "rstrip_nul (xs @ replicate n 0) = rstrip_nul xs"
proof -
  have "dropWhile (\<lambda>x. x = 0) (replicate n (0::byte) @ rev xs) = dropWhile (\<lambda>x. x = 0) (rev xs)"
    by (rule dropWhile_append2) simp
  then show ?thesis by (simp add: rstrip_nul_def)
qed

lemma utf8_replace_without_marks:
  "filter (\<lambda>c. c \<noteq> 0xFFFD) (utf8_replace b) = filter (\<lambda>c. c \<noteq> 0xFFFD) (utf8_ignore b)"
proof (induction b rule: utf8_ignore.induct)
  case 1
  show ?case by simp
next
  case (2 h t)
  then show ?case by (cases "fst (utf8_step (h # t))") (simp_all del: utf8_step.simps)
qed

lemma magic_length: "length BOOT_MAGIC_VENDOR_BOOT = 8"
  by (simp add: BOOT_MAGIC_VENDOR_BOOT_def)

lemma text_image_facts:
  "slice text_image 0 8 = BOOT_MAGIC_VENDOR_BOOT" "length text_image = 2172"
  "slice text_image 28 2076 = [0x61, 0xFF, 0x62] @ replicate 2045 0"
  "slice text_image 2080 2144 = [] @ replicate 64 0"
  by (simp_all add: text_image_def slice_def magic_length)

lemma table_image_facts:
  "slice (table_image n tail) 0 8 = BOOT_MAGIC_VENDOR_BOOT"
  "length (table_image n tail) = 2172 + length tail"
  "slice (table_image n tail) 2164 2168 = [n, 0, 0, 0]"
  by (simp_all add: table_image_def slice_def magic_length)

lemma text_image_cmdline:
  "utf8_ignore (rstrip_nul (slice text_image 28 2076)) = [97, 98]"
  "utf8_replace (rstrip_nul (slice text_image 28 2076)) = [97, 0xFFFD, 98]"
  "utf8_ignore (rstrip_nul (slice text_image 2080 2144)) = []"
proof -
  have "rstrip_nul (slice text_image 28 2076) = rstrip_nul [0x61, 0xFF, 0x62]"
    unfolding text_image_facts(3) by (rule rstrip_nul_zeros)
  also have "\<dots> = [0x61, 0xFF, 0x62]" by (simp add: rstrip_nul_def)
  finally have r: "rstrip_nul (slice text_image 28 2076) = [0x61, 0xFF, 0x62]" .
  show "utf8_ignore (rstrip_nul (slice text_image 28 2076)) = [97, 98]"
    unfolding r by (simp add: is_cont_def second_ok_def)
  show "utf8_replace (rstrip_nul (slice text_image 28 2076)) = [97, 0xFFFD, 98]"
    unfolding r by (simp add: is_cont_def second_ok_def)
  have p: "rstrip_nul (slice text_image 2080 2144) = rstrip_nul []"
    unfolding text_image_facts(4) by (rule rstrip_nul_zeros)
  have e: "rstrip_nul [] = []" by (simp add: rstrip_nul_def)
  show "utf8_ignore (rstrip_nul (slice text_image 2080 2144)) = []"
    unfolding p e by simp
qed

subsection \<open>The decoded table\<close>

text \<open>
  Claim C6. For every parsed header, each table entry is \<open>4 + 4 + 4 + 32 + 32\<close> bytes wide.
  When \<open>num_entries\<close> entries of that width are available from \<open>table_offset\<close>, the
  decoder returns exactly \<open>num_entries\<close> entries, entry \<open>i\<close> being decoded from the bytes
  at \<open>table_offset + i * 76\<close>, in table order; when the buffer ends before that, it fails
  with the error of a truncated table, at the first entry that is cut short.
\<close>

theorem get_ramdisk_entries_table:
  assumes "VendorBootHeader_init d = Inr h"
  shows "entry_width = 4 + 4 + 4 + 32 + 32
    \<and> (table_offset h + vendor_ramdisk_table_num_entries h * entry_width \<le> length d \<longrightarrow>
        (\<exists>es. get_ramdisk_entries h = Inr es
           \<and> length es = vendor_ramdisk_table_num_entries h
           \<and> (\<forall>i<vendor_ramdisk_table_num_entries h.
                VendorRamdiskEntry_init
                  (slice d (table_offset h + i * entry_width)
                           (table_offset h + i * entry_width + entry_width))
                = Inr (es ! i))))
    \<and> (length d < table_offset h + vendor_ramdisk_table_num_entries h * entry_width \<longrightarrow>
        get_ramdisk_entries h
        = Inl (TruncatedTable ((length d - table_offset h) div entry_width)))"
proof (intro conjI impI)
  note dh = VendorBootHeader_init_Inr(3) [OF assms]
  let ?n = "vendor_ramdisk_table_num_entries h"
  show "entry_width = 4 + 4 + 4 + 32 + 32" by (simp add: entry_width_76)
  {
    assume "table_offset h + ?n * entry_width \<le> length d"
    then have "table_offset h + (0 + ?n) * 76 \<le> length (data h)"
      by (simp add: entry_width_76 dh)
    from entries_from_full [OF this] obtain es where
      es: "entries_from h 0 ?n = Inr es" "length es = ?n"
        "\<forall>j<?n. VendorRamdiskEntry_init
                  (slice d (table_offset h + j * 76) (table_offset h + j * 76 + 76))
                = Inr (es ! j)"
      by (auto simp: dh)
    have "get_ramdisk_entries h = Inr es"
    proof (cases "?n = 0")
      case True
      with es(2) show ?thesis by (simp add: get_ramdisk_entries_def)
    next
      case False
      with es(1) show ?thesis by (simp add: get_ramdisk_entries_def)
    qed
    with es(2,3)
    show "\<exists>es. get_ramdisk_entries h = Inr es
           \<and> length es = ?n
           \<and> (\<forall>i<?n.
                VendorRamdiskEntry_init
                  (slice d (table_offset h + i * entry_width)
                           (table_offset h + i * entry_width + entry_width))
                = Inr (es ! i))"
      by (simp add: entry_width_76)
  }
  {
    assume lt: "length d < table_offset h + ?n * entry_width"
    from VendorBootHeader_init_Inr(2,4) [OF assms] have "table_offset h \<le> length d" by simp
    with lt have "?n \<noteq> 0" by (cases "?n = 0") simp_all
    then obtain k where k: "?n = Suc k" by (cases ?n) auto
    from lt have "length (data h) < table_offset h + (0 + Suc k) * 76"
      by (simp add: entry_width_76 dh k)
    from entries_from_truncated [OF _ this]
    have "entries_from h 0 (Suc k) = Inl (TruncatedTable ((length d - table_offset h) div 76))"
      by (simp add: dh)
    with k show "get_ramdisk_entries h
        = Inl (TruncatedTable ((length d - table_offset h) div entry_width))"
      by (simp add: get_ramdisk_entries_def entry_width_76 del: entries_from.simps)
  }
qed

theorem get_ramdisk_entries_table_witness:
  "(\<exists>h es. VendorBootHeader_init (table_image 3 (replicate 228 7)) = Inr h
       \<and> get_ramdisk_entries h = Inr es \<and> length es = 3)
   \<and> (\<exists>h. VendorBootHeader_init (table_image 3 (replicate 227 7)) = Inr h
       \<and> get_ramdisk_entries h = Inl (TruncatedTable 2))"
proof -
  obtain h where h: "VendorBootHeader_init (table_image 3 (replicate 228 7)) = Inr h"
    using VendorBootHeader_init_accepts [of "table_image 3 (replicate 228 7)"]
    by (auto simp: table_image_facts)
  from VendorBootHeader_init_num_entries [OF h]
  have n: "vendor_ramdisk_table_num_entries h = 3" by (simp add: table_image_facts)
  from get_ramdisk_entries_table [OF h] n VendorBootHeader_init_Inr(4) [OF h]
  have a: "\<exists>es. get_ramdisk_entries h = Inr es \<and> length es = 3"
    by (auto simp: table_image_facts entry_width_76)
  obtain g where g: "VendorBootHeader_init (table_image 3 (replicate 227 7)) = Inr g"
    using VendorBootHeader_init_accepts [of "table_image 3 (replicate 227 7)"]
    by (auto simp: table_image_facts)
  from VendorBootHeader_init_num_entries [OF g]
  have m: "vendor_ramdisk_table_num_entries g = 3" by (simp add: table_image_facts)
  from get_ramdisk_entries_table [OF g] m VendorBootHeader_init_Inr(4) [OF g]
  have b: "get_ramdisk_entries g = Inl (TruncatedTable 2)"
    by (simp add: table_image_facts entry_width_76)
  from h a g b show ?thesis by blast
qed

subsection \<open>The text fields\<close>

text \<open>
  Claim C7, as amended. For every buffer the parser accepts, \<open>cmdline\<close> and
  \<open>product_name\<close> are their fixed-width regions with trailing NUL bytes stripped and
  decoded with malformed byte sequences dropped: the decoding is the replacing one with
  the replacement marks left out. The parser accepts exactly the buffers of at least 2172
  bytes that start with the magic, whatever the text regions hold, and the empty string
  is a possible result.
\<close>

theorem text_fields_decoding:
  "(VendorBootHeader_init d = Inr h \<longrightarrow>
      cmdline h = utf8_ignore (rstrip_nul (slice d 28 (28 + VENDOR_RAMDISK_CMDLINE_SIZE)))
      \<and> product_name h = utf8_ignore (rstrip_nul (slice d 2080 (2080 + BOOT_PRODUCT_NAME_SIZE))))
   \<and> ((\<exists>h'. VendorBootHeader_init d = Inr h')
        \<longleftrightarrow> slice d 0 8 = BOOT_MAGIC_VENDOR_BOOT \<and> 2172 \<le> length d)
   \<and> filter (\<lambda>c. c \<noteq> 0xFFFD) (utf8_replace b) = filter (\<lambda>c. c \<noteq> 0xFFFD) (utf8_ignore b)"
proof (intro conjI impI)
  assume i: "VendorBootHeader_init d = Inr h"
  from VendorBootHeader_init_Inr(5) [OF i]
  show "cmdline h = utf8_ignore (rstrip_nul (slice d 28 (28 + VENDOR_RAMDISK_CMDLINE_SIZE)))"
    by (simp add: VENDOR_RAMDISK_CMDLINE_SIZE_def)
  from VendorBootHeader_init_Inr(6) [OF i]
  show "product_name h = utf8_ignore (rstrip_nul (slice d 2080 (2080 + BOOT_PRODUCT_NAME_SIZE)))"
    by (simp add: BOOT_PRODUCT_NAME_SIZE_def)
next
  show "(\<exists>h'. VendorBootHeader_init d = Inr h')
        \<longleftrightarrow> slice d 0 8 = BOOT_MAGIC_VENDOR_BOOT \<and> 2172 \<le> length d"
    using VendorBootHeader_init_Inr(1,2) VendorBootHeader_init_accepts by blast
next
  show "filter (\<lambda>c. c \<noteq> 0xFFFD) (utf8_replace b) = filter (\<lambda>c. c \<noteq> 0xFFFD) (utf8_ignore b)"
    by (rule utf8_replace_without_marks)
qed

theorem text_fields_decoding_witness:
  "\<exists>h. VendorBootHeader_init text_image = Inr h \<and> cmdline h = [97, 98] \<and> product_name h = []"
proof -
  obtain h where h: "VendorBootHeader_init text_image = Inr h"
    using VendorBootHeader_init_accepts [of text_image] by (auto simp: text_image_facts)
  from text_fields_decoding [of text_image h] h
  have "cmdline h = utf8_ignore (rstrip_nul (slice text_image 28 2076))"
    and "product_name h = utf8_ignore (rstrip_nul (slice text_image 2080 2144))"
    by (simp_all add: VENDOR_RAMDISK_CMDLINE_SIZE_def BOOT_PRODUCT_NAME_SIZE_def)
  then have "cmdline h = [97, 98]" and "product_name h = []"
    by (simp_all only: text_image_cmdline)
  with h show ?thesis by blast
qed

text \<open>
  As stated, with malformed sequences replaced, the claim fails on a command line region
  that starts with \<open>61 FF 62\<close>: the parser yields the two characters \<open>ab\<close>, the
  replacing decoding three.
\<close>

theorem text_fields_replace_counterexample:
  "map_sum id cmdline (VendorBootHeader_init text_image) = Inr [97, 98]
   \<and> utf8_replace (rstrip_nul (slice text_image 28 (28 + VENDOR_RAMDISK_CMDLINE_SIZE)))
     = [97, 0xFFFD, 98]"
proof -
  obtain h where h: "VendorBootHeader_init text_image = Inr h"
    using VendorBootHeader_init_accepts [of text_image] by (auto simp: text_image_facts)
  from VendorBootHeader_init_Inr(5) [OF h]
  have "cmdline h = [97, 98]" by (simp only: text_image_cmdline)
  moreover have sz: "28 + VENDOR_RAMDISK_CMDLINE_SIZE = 2076"
    by (simp add: VENDOR_RAMDISK_CMDLINE_SIZE_def)
  have "utf8_replace (rstrip_nul (slice text_image 28 (28 + VENDOR_RAMDISK_CMDLINE_SIZE)))
     = [97, 0xFFFD, 98]"
    unfolding sz by (rule text_image_cmdline(2))
  ultimately show ?thesis using h by simp
qed

section \<open>Properties of the choice of the recovery ramdisk\<close>

lemma str_ramdisk_prefix: "str ''ramdisk_'' @ s \<noteq> []" "take 1 (str ''ramdisk_'' @ s) \<noteq> [47]"
  by (simp_all add: str_def)

lemma ramdisk_dir_nonempty: "ramdisk_dir w e \<noteq> []"
  using str_ramdisk_prefix by (simp add: ramdisk_dir_def os_path_join_def)

lemma recovery_loop_last:
  "recovery_loop w es r =
     (if filter (\<lambda>e. entry_type e = VENDOR_RAMDISK_TYPE_RECOVERY) es = [] then r
      else Some (ramdisk_dir w (last (filter (\<lambda>e. entry_type e = VENDOR_RAMDISK_TYPE_RECOVERY) es))))"
  by (induction es arbitrary: r) (simp_all add: Let_def)

text \<open>
  Claim C3, as amended. From a non-empty table, the directory chosen is that of the last
  entry, in table order, whose type is \<open>recovery\<close>; when no entry has that type, it is
  that of the first entry of the table.
\<close>

theorem recovery_dir_choice:
  assumes "entries \<noteq> []"
  shows "extract_from_image_recovery_dir work_dir entries =
     Inr (ramdisk_dir work_dir
            (if filter (\<lambda>e. entry_type e = VENDOR_RAMDISK_TYPE_RECOVERY) entries = []
             then hd entries
             else last (filter (\<lambda>e. entry_type e = VENDOR_RAMDISK_TYPE_RECOVERY) entries)))"
proof -
  from assms obtain e0 rest where es: "entries = e0 # rest" by (cases entries) auto
  show ?thesis
  proof (cases "filter (\<lambda>e. entry_type e = VENDOR_RAMDISK_TYPE_RECOVERY) entries = []")
    case True
    then have "recovery_loop work_dir entries None = None" by (simp add: recovery_loop_last)
    with True es show ?thesis
      by (simp add: extract_from_image_recovery_dir_def py_not_def ramdisk_dir_nonempty)
  next
    case False
    then have "recovery_loop work_dir entries None
        = Some (ramdisk_dir work_dir
                  (last (filter (\<lambda>e. entry_type e = VENDOR_RAMDISK_TYPE_RECOVERY) entries)))"
      by (simp add: recovery_loop_last)
    with False show ?thesis
      by (simp add: extract_from_image_recovery_dir_def py_not_def ramdisk_dir_nonempty)
  qed
qed

theorem recovery_dir_choice_witness:
  "extract_from_image_recovery_dir (str ''w'')
      [named_entry 3 ''p'', named_entry 2 ''a'', named_entry 0 ''d'', named_entry 2 ''b'']
     = Inr (str ''w/ramdisk_b'')
   \<and> extract_from_image_recovery_dir (str ''w'') [named_entry 3 ''p'', named_entry 0 ''d'']
     = Inr (str ''w/ramdisk_p'')"
proof -
  have t: "entry_type (named_entry t n) = t" for t n by (simp add: named_entry_def)
  have d: "ramdisk_dir (str ''w'') (named_entry 2 ''b'') = str ''w/ramdisk_b''"
    "ramdisk_dir (str ''w'') (named_entry 3 ''p'') = str ''w/ramdisk_p''"
    by (simp_all add: ramdisk_dir_def os_path_join_def str_def named_entry_def)
  from recovery_dir_choice [of "[named_entry 3 ''p'', named_entry 2 ''a'', named_entry 0 ''d'', named_entry 2 ''b'']" "str ''w''"]
  have a: "extract_from_image_recovery_dir (str ''w'')
      [named_entry 3 ''p'', named_entry 2 ''a'', named_entry 0 ''d'', named_entry 2 ''b'']
     = Inr (str ''w/ramdisk_b'')"
    by (simp add: t d VENDOR_RAMDISK_TYPE_RECOVERY_def)
  from recovery_dir_choice [of "[named_entry 3 ''p'', named_entry 0 ''d'']" "str ''w''"]
  have b: "extract_from_image_recovery_dir (str ''w'') [named_entry 3 ''p'', named_entry 0 ''d'']
     = Inr (str ''w/ramdisk_p'')"
    by (simp add: t d VENDOR_RAMDISK_TYPE_RECOVERY_def)
  from a b show ?thesis by simp
qed

text \<open>
  As stated, with the first recovery entry chosen, the claim fails on a table of two
  recovery entries \<open>a\<close> and \<open>b\<close>: the loop assigns the directory at each of them, and
  the directory of \<open>b\<close> remains.
\<close>

theorem first_recovery_entry_counterexample:
  "extract_from_image_recovery_dir (str ''w'') [named_entry 2 ''a'', named_entry 2 ''b'']
     = Inr (str ''w/ramdisk_b'')
   \<and> ramdisk_dir (str ''w'') (named_entry 2 ''a'') = str ''w/ramdisk_a''
   \<and> str ''w/ramdisk_b'' \<noteq> str ''w/ramdisk_a''"
  by (simp add: extract_from_image_recovery_dir_def ramdisk_dir_def os_path_join_def str_def
      named_entry_def VENDOR_RAMDISK_TYPE_RECOVERY_def py_not_def)

section \<open>Properties of the cpio extractor\<close>

subsection \<open>Paths without climbing components\<close>

lemma split_sep_nonempty: "split_sep p \<noteq> []"
  by (induction p) (auto split: list.splits)

lemma split_sep_append_sep: "split_sep (a @ 47 # b) = split_sep a @ split_sep b"
proof (induction a)
  case Nil
  show ?case by simp
next
  case (Cons c a)
  obtain x xs where x: "split_sep a = x # xs"
    using split_sep_nonempty [of a] by (cases "split_sep a") auto
  with Cons show ?case by simp
qed

lemma split_sep_lstrip: "set (split_sep (lstrip_sep f)) \<subseteq> set (split_sep f)"
  by (induction f) (auto simp: lstrip_sep_def)

lemma lstrip_sep_head: "take 1 (lstrip_sep f) \<noteq> [47]"
proof (induction f)
  case Nil
  show ?case by (simp add: lstrip_sep_def)
next
  case (Cons c f)
  then show ?case by (cases "c = 47") (simp_all add: lstrip_sep_def)
qed

lemma foldl_norm_push_plain:
  "str ''..'' \<notin> set ys \<Longrightarrow>
   foldl (norm_push a) st ys = st @ filter (\<lambda>c. c \<noteq> [] \<and> c \<noteq> str ''.'') ys"
proof (induction ys arbitrary: st)
  case Nil
  show ?case by simp
next
  case (Cons y ys)
  then have y: "y \<noteq> str ''..''" and ys: "str ''..'' \<notin> set ys" by auto
  from y have "norm_push a st y = (if y = [] \<or> y = str ''.'' then st else st @ [y])"
    by (simp add: norm_push_def)
  with Cons.IH [OF ys] show ?case by simp
qed

lemma normpath_comps_extend:
  assumes "str ''..'' \<notin> set (split_sep t)" "(take 1 (r @ 47 # t) = [47]) = (take 1 r = [47])"
  shows "normpath_comps (r @ 47 # t)
     = normpath_comps r @ filter (\<lambda>c. c \<noteq> [] \<and> c \<noteq> str ''.'') (split_sep t)"
  using assms
  by (simp add: normpath_comps_def split_sep_append_sep foldl_norm_push_plain)

lemma inside_extend:
  assumes "str ''..'' \<notin> set (split_sep t)" "r \<noteq> []"
  shows "inside r (r @ 47 # t)"
proof -
  from assms(2) have h: "(take 1 (r @ 47 # t) = [47]) = (take 1 r = [47])"
    by (cases r) auto
  from normpath_comps_extend [OF assms(1) h] assms(1) h show ?thesis
    by (simp add: inside_def)
qed

lemma normpath_comps_trailing_sep:
  assumes "r \<noteq> []" "last r = 47"
  shows "normpath_comps r = normpath_comps (butlast r)
    \<or> (butlast r = [] \<and> normpath_comps r = [])"
proof -
  from assms have r: "r = butlast r @ 47 # []" by (metis append_butlast_last_id)
  show ?thesis
  proof (cases "butlast r = []")
    case True
    with r have "r = [47]" by simp
    then show ?thesis using True by (simp add: normpath_comps_def norm_push_def)
  next
    case False
    then have h: "(take 1 (butlast r @ 47 # []) = [47]) = (take 1 (butlast r) = [47])"
      by (cases "butlast r") auto
    have "str ''..'' \<notin> set (split_sep [])" by (simp add: str_def)
    from normpath_comps_extend [OF this h] r show ?thesis by simp
  qed
qed

lemma inside_cpio_full_path:
  assumes "str ''..'' \<notin> set (split_sep filename)"
  shows "inside dest_dir (cpio_full_path dest_dir filename)"
proof -
  let ?t = "lstrip_sep filename"
  from assms split_sep_lstrip [of filename] have t: "str ''..'' \<notin> set (split_sep ?t)" by auto
  note nh = lstrip_sep_head [of filename]
  show ?thesis
  proof (cases "dest_dir = []")
    case True
    then have fp: "cpio_full_path dest_dir filename = ?t"
      using nh by (simp add: cpio_full_path_def os_path_join_def)
    have "normpath_comps ?t = filter (\<lambda>c. c \<noteq> [] \<and> c \<noteq> str ''.'') (split_sep ?t)"
      using t by (simp add: normpath_comps_def foldl_norm_push_plain)
    with t have "str ''..'' \<notin> set (normpath_comps ?t)" by simp
    with True fp nh show ?thesis
      by (simp add: inside_def normpath_comps_def norm_push_def)
  next
    case False
    show ?thesis
    proof (cases "last dest_dir = 47")
      case True
      with False have r: "dest_dir = butlast dest_dir @ [47]" by (metis append_butlast_last_id)
      from True False nh have fp: "cpio_full_path dest_dir filename = dest_dir @ ?t"
        by (simp add: cpio_full_path_def os_path_join_def)
      then have fp': "cpio_full_path dest_dir filename = butlast dest_dir @ 47 # ?t"
        using r by (metis append.assoc append_Cons append_Nil)
      show ?thesis
      proof (cases "butlast dest_dir = []")
        case True
        with r have d: "dest_dir = [47]" by simp
        have "normpath_comps (47 # ?t) = filter (\<lambda>c. c \<noteq> [] \<and> c \<noteq> str ''.'') (split_sep ?t)"
          using t by (simp add: normpath_comps_def foldl_norm_push_plain norm_push_def)
        with t have "str ''..'' \<notin> set (normpath_comps (47 # ?t))" by simp
        moreover have "normpath_comps [47] = []" by (simp add: normpath_comps_def norm_push_def)
        ultimately show ?thesis using d fp by (simp add: inside_def)
      next
        case nb: False
        then have h: "(take 1 (butlast dest_dir @ 47 # ?t) = [47]) = (take 1 (butlast dest_dir) = [47])"
          by (cases "butlast dest_dir") auto
        have h2: "(take 1 (butlast dest_dir) = [47]) = (take 1 dest_dir = [47])"
          using nb by (cases dest_dir) (auto split: if_splits)
        from normpath_comps_trailing_sep [OF False True] nb
        have n: "normpath_comps dest_dir = normpath_comps (butlast dest_dir)" by simp
        from normpath_comps_extend [OF t h] n t h h2 fp' show ?thesis
          by (simp add: inside_def)
      qed
    next
      case nl: False
      with False nh have fp: "cpio_full_path dest_dir filename = dest_dir @ 47 # ?t"
        by (simp add: cpio_full_path_def os_path_join_def)
      from inside_extend [OF t False] fp show ?thesis by simp
    qed
  qed
qed

subsection \<open>The steps of the loop\<close>

lemma f_read_suffix: "f_read s n = Inr (r, t) \<Longrightarrow> suffix t s"
  by (auto simp: f_read_def suffix_drop split: if_splits)

lemma materialize_suffix:
  assumes "materialize p mode filesize t = Continue ops t'"
  shows "suffix t' t"
proof -
  have "t' = t \<or> (\<exists>r u. f_read t filesize = Inr (r, u) \<and> t' = drop (nat ((4 - filesize mod 4) mod 4)) u)"
    using assms by (auto simp: materialize_def split: if_splits sum.splits)
  then show ?thesis
  proof
    assume "t' = t"
    then show ?thesis by simp
  next
    assume "\<exists>r u. f_read t filesize = Inr (r, u) \<and> t' = drop (nat ((4 - filesize mod 4) mod 4)) u"
    then obtain r u where f: "f_read t filesize = Inr (r, u)"
      and t': "t' = drop (nat ((4 - filesize mod 4) mod 4)) u" by blast
    from t' have "suffix t' u" by (simp add: suffix_drop)
    with f_read_suffix [OF f] show ?thesis using suffix_order.trans by blast
  qed
qed

lemma cpio_step_suffix:
  assumes "cpio_step int16 dest_dir s = Continue ops s'"
  shows "suffix s' s"
proof -
  from assms obtain n r t p mode filesize where f: "f_read (drop 110 s) n = Inr (r, t)"
    and m: "materialize p mode filesize (drop (nat ((4 - n mod 4) mod 4)) t) = Continue ops s'"
    by (auto simp: cpio_step_def Let_def split: if_splits option.splits sum.splits)
  from f have "suffix t (drop 110 s)" by (rule f_read_suffix)
  then have "suffix t s" using suffix_drop suffix_order.trans by blast
  moreover have "suffix (drop (nat ((4 - n mod 4) mod 4)) t) t" by (rule suffix_drop)
  moreover note materialize_suffix [OF m]
  ultimately show ?thesis using suffix_order.trans by blast
qed

lemma cpio_step_shapes:
  assumes "cpio_step int16 dest_dir s = Continue ops s'"
  shows "\<exists>filename t d.
     ops = [MakeDirs (cpio_full_path dest_dir filename)]
     \<or> ops = [Symlink t (cpio_full_path dest_dir filename)]
     \<or> ops = [MakeDirs (dirname (cpio_full_path dest_dir filename)),
               WriteFile (cpio_full_path dest_dir filename) d]"
proof -
  from assms obtain filename mode filesize t where
    m: "materialize (cpio_full_path dest_dir filename) mode filesize t = Continue ops s'"
    by (auto simp: cpio_step_def Let_def split: if_splits option.splits sum.splits)
  then show ?thesis
    by (auto simp: materialize_def split: if_splits sum.splits)
qed






lemma cpio_step_Continue_name:
  assumes "cpio_step int16 dest_dir s = Continue ops s'"
  shows "\<exists>name t d. decoded_name int16 s = Some name
     \<and> (ops = [MakeDirs (cpio_full_path dest_dir name)]
        \<or> ops = [Symlink t (cpio_full_path dest_dir name)]
        \<or> ops = [MakeDirs (dirname (cpio_full_path dest_dir name)),
                  WriteFile (cpio_full_path dest_dir name) d])"
proof -
  from assms obtain mode filesize namesize raw rest where
    h: "header_fields int16 (take 110 s) = Some (mode, filesize, namesize)"
    and f: "f_read (drop 110 s) namesize = Inr (raw, rest)"
    and m: "materialize (cpio_full_path dest_dir (utf8_ignore (rstrip_nul raw))) mode filesize
              (drop (nat ((4 - namesize mod 4) mod 4)) rest) = Continue ops s'"
    by (auto simp: cpio_step_def Let_def split: if_splits option.splits sum.splits)
  from h f have n: "decoded_name int16 s = Some (utf8_ignore (rstrip_nul raw))"
    by (simp add: decoded_name_def)
  from m have "\<exists>t d. ops = [MakeDirs (cpio_full_path dest_dir (utf8_ignore (rstrip_nul raw)))]
        \<or> ops = [Symlink t (cpio_full_path dest_dir (utf8_ignore (rstrip_nul raw)))]
        \<or> ops = [MakeDirs (dirname (cpio_full_path dest_dir (utf8_ignore (rstrip_nul raw)))),
                  WriteFile (cpio_full_path dest_dir (utf8_ignore (rstrip_nul raw))) d]"
    by (auto simp: materialize_def split: if_splits sum.splits)
  with n show ?thesis by blast
qed




lemma extract_loop_ops_origin:
  "op \<in> set (fst (extract_loop int16 dest_dir s done_ops)) \<Longrightarrow>
   op \<in> set done_ops
   \<or> (\<exists>s1 ops s2. suffix s1 s \<and> cpio_step int16 dest_dir s1 = Continue ops s2 \<and> op \<in> set ops)"
proof (induction int16 dest_dir s done_ops rule: extract_loop.induct)
  case (1 int16 dest_dir s done_ops)
  show ?case
  proof (cases "cpio_step int16 dest_dir s")
    case (Stop r)
    with "1.prems" show ?thesis by (simp add: extract_loop.simps)
  next
    case (Raise e)
    with "1.prems" show ?thesis by (simp add: extract_loop.simps)
  next
    case (Continue ops s')
    with "1.prems" have "op \<in> set (fst (extract_loop int16 dest_dir s' (done_ops @ ops)))"
      by (simp add: extract_loop.simps [of int16 dest_dir s])
    from "1.IH" [OF Continue this]
    have "op \<in> set (done_ops @ ops)
      \<or> (\<exists>s1 ops' s2. suffix s1 s' \<and> cpio_step int16 dest_dir s1 = Continue ops' s2 \<and> op \<in> set ops')" .
    then show ?thesis
    proof
      assume "op \<in> set (done_ops @ ops)"
      then have "op \<in> set done_ops \<or> op \<in> set ops" by simp
      then show ?thesis
      proof
        assume "op \<in> set done_ops" then show ?thesis by simp
      next
        assume "op \<in> set ops"
        with Continue have "suffix s s \<and> cpio_step int16 dest_dir s = Continue ops s' \<and> op \<in> set ops"
          by simp
        then show ?thesis by blast
      qed
    next
      assume "\<exists>s1 ops' s2. suffix s1 s' \<and> cpio_step int16 dest_dir s1 = Continue ops' s2 \<and> op \<in> set ops'"
      then obtain s1 ops' s2 where a: "suffix s1 s'" "cpio_step int16 dest_dir s1 = Continue ops' s2" "op \<in> set ops'"
        by blast
      from a(1) cpio_step_suffix [OF Continue] have "suffix s1 s" using suffix_order.trans by blast
      with a(2,3) show ?thesis by blast
    qed
  qed
qed

subsection \<open>Evaluating the extractor on the example archives\<close>

lemma len8 [simp]: "length (hex8 k) = 8" by (simp add: hex8_def)

lemma cpio_header_length: "length (cpio_header m f n) = 110"
  by (simp add: cpio_header_def)

lemma cpio_header_slices:
  "slice (cpio_header m f n) 0 6 = map of_char ''070701''"
  "slice (cpio_header m f n) 6 14 = hex8 1"
  "slice (cpio_header m f n) 14 22 = hex8 m"
  "slice (cpio_header m f n) 22 30 = hex8 0"
  "slice (cpio_header m f n) 30 38 = hex8 0"
  "slice (cpio_header m f n) 38 46 = hex8 1"
  "slice (cpio_header m f n) 46 54 = hex8 0"
  "slice (cpio_header m f n) 54 62 = hex8 f"
  "slice (cpio_header m f n) 62 70 = hex8 0"
  "slice (cpio_header m f n) 70 78 = hex8 0"
  "slice (cpio_header m f n) 78 86 = hex8 0"
  "slice (cpio_header m f n) 86 94 = hex8 0"
  "slice (cpio_header m f n) 94 102 = hex8 n"
  "slice (cpio_header m f n) 102 110 = hex8 0"
  by (simp_all add: cpio_header_def slice_def)

lemma hex_int_hex8:
  "hex_int (hex8 0) = Some 0" "hex_int (hex8 1) = Some 1" "hex_int (hex8 2) = Some 2"
  "hex_int (hex8 5) = Some 5" "hex_int (hex8 6) = Some 6" "hex_int (hex8 11) = Some 11"
  "hex_int (hex8 0xA1FF) = Some 0xA1FF" "hex_int (hex8 0x81A4) = Some 0x81A4"
  by (simp_all add: hex8_def hex_digit_def hex_int_def hex_val_def)

lemma header_fields_examples:
  "header_fields hex_int (cpio_header 0xA1FF 6 5) = Some (0xA1FF, 6, 5)"
  "header_fields hex_int (cpio_header 0x81A4 2 5) = Some (0x81A4, 2, 5)"
  "header_fields hex_int (cpio_header 0 0 11) = Some (0, 0, 11)"
  by (simp_all only: header_fields_def cpio_header_slices hex_int_hex8 Option.bind.simps)

lemma cpio_step_header:
  assumes "header_fields int16 (cpio_header m f n) = Some (mode, filesize, namesize)"
  shows "cpio_step int16 dest_dir (cpio_header m f n @ rest) =
    (case f_read rest namesize of
       Inl e \<Rightarrow> Raise e
     | Inr (filename_raw, s') \<Rightarrow>
         if utf8_ignore (rstrip_nul filename_raw) = str ''TRAILER!!!'' then Stop Trailer
         else materialize (cpio_full_path dest_dir (utf8_ignore (rstrip_nul filename_raw)))
                mode filesize (drop (nat ((4 - namesize mod 4) mod 4)) s'))"
proof -
  have t: "take 110 (cpio_header m f n @ rest) = cpio_header m f n"
    and d: "drop 110 (cpio_header m f n @ rest) = rest"
    by (simp_all add: cpio_header_length)
  have a: "\<not> list_ex (\<lambda>b. 0x80 \<le> b) (slice (cpio_header m f n) 0 6)"
    by (simp add: cpio_header_slices)
  have g: "slice (cpio_header m f n) 0 6 \<in> cpio_magics"
    by (simp add: cpio_header_slices cpio_magics_def)
  show ?thesis
    unfolding cpio_step_def t d Let_def using a g assms
    by (simp add: cpio_header_length)
qed

lemma trailer_step: "cpio_step hex_int dest_dir trailer = Stop Trailer"
proof -
  have "f_read (map of_char ''TRAILER!!!'' @ [0] @ [0]) 11 = Inr (map of_char ''TRAILER!!!'' @ [0], [0])"
    by (simp add: f_read_def)
  moreover have "rstrip_nul (map of_char ''TRAILER!!!'' @ [0]) = map of_char ''TRAILER!!!''"
    by (simp add: rstrip_nul_def)
  moreover have "utf8_ignore (map of_char ''TRAILER!!!'') = str ''TRAILER!!!''"
    by (simp add: str_def)
  ultimately show ?thesis
    unfolding trailer_def
    by (simp add: cpio_step_header [OF header_fields_examples(3)])
qed

lemma symlink_archive_step:
  "cpio_step hex_int (str ''out'') symlink_archive
     = Continue [MakeDirs (str ''out''), WriteFile (str ''out/link'') (map of_char ''hi.txt'')]
         trailer"
  unfolding symlink_archive_def
  by (simp add: cpio_step_header [OF header_fields_examples(1)] f_read_def rstrip_nul_def
      str_def cpio_full_path_def os_path_join_def lstrip_sep_def dirname_def materialize_def)

lemma climbing_archive_step:
  "cpio_step hex_int (str ''/out'') climbing_archive
     = Continue [MakeDirs (str ''/out/..''), WriteFile (str ''/out/../x'') (map of_char ''hi'')]
         trailer"
  unfolding climbing_archive_def
  by (simp add: cpio_step_header [OF header_fields_examples(2)] f_read_def rstrip_nul_def
      str_def cpio_full_path_def os_path_join_def lstrip_sep_def dirname_def materialize_def)

lemma extract_loop_Stop:
  "cpio_step int16 dest_dir s = Stop r \<Longrightarrow> extract_loop int16 dest_dir s done_ops = (done_ops, Stopped r)"
  by (simp add: extract_loop.simps)

lemma extract_loop_Raise:
  "cpio_step int16 dest_dir s = Raise e \<Longrightarrow> extract_loop int16 dest_dir s done_ops = (done_ops, Raised e)"
  by (simp add: extract_loop.simps)

lemma extract_loop_Continue:
  "cpio_step int16 dest_dir s = Continue ops s' \<Longrightarrow>
   extract_loop int16 dest_dir s done_ops = extract_loop int16 dest_dir s' (done_ops @ ops)"
  by (simp add: extract_loop.simps [of int16 dest_dir s])

lemma hex_int_hex8_12: "hex_int (hex8 12) = Some 12"
  by (simp add: hex8_def hex_digit_def hex_int_def hex_val_def)

lemma header_fields_passwd:
  "header_fields hex_int (cpio_header 0x81A4 2 12) = Some (0x81A4, 2, 12)"
  by (simp only: header_fields_def cpio_header_slices hex_int_hex8 hex_int_hex8_12 Option.bind.simps)

lemma passwd_archive_step:
  "cpio_step hex_int (str ''out'') passwd_archive
     = Continue [MakeDirs (str ''out/etc''), WriteFile (str ''out/etc/passwd'') (map of_char ''hi'')]
         trailer"
  unfolding passwd_archive_def
  by (simp add: cpio_step_header [OF header_fields_passwd] f_read_def rstrip_nul_def
      str_def cpio_full_path_def os_path_join_def lstrip_sep_def dirname_def materialize_def)

lemma passwd_archive_name: "decoded_name hex_int passwd_archive = Some (str ''/etc/passwd'')"
proof -
  have "take 110 passwd_archive = cpio_header 0x81A4 2 12"
    and "drop 110 passwd_archive = map of_char ''/etc/passwd'' @ [0] @ map of_char ''hi'' @ [0, 0] @ trailer"
    by (simp_all add: passwd_archive_def cpio_header_length)
  then show ?thesis
    by (simp add: decoded_name_def header_fields_passwd f_read_def rstrip_nul_def str_def)
qed



subsection \<open>Where entries are created\<close>

text \<open>
  Claim C1, as amended. Every operation the extractor requests comes from a record of the
  input, and the entry of a record is created at
  \<open>os.path.join(dest_dir, name.lstrip('/'))\<close> for the name decoded from that record: a
  directory there, a symbolic link there, or a file there after its parent directory.
  That path stays inside the destination root whenever the decoded name has no \<open>..\<close>
  component, and the leading separator is stripped, so that \<open>/etc/passwd\<close> is created
  at \<open><dest>/etc/passwd\<close>.
\<close>

theorem cpio_full_path_contained:
  "(str ''..'' \<notin> set (split_sep filename) \<longrightarrow> inside dest_dir (cpio_full_path dest_dir filename))
   \<and> (dest_dir \<noteq> [] \<and> last dest_dir \<noteq> 47 \<longrightarrow>
        cpio_full_path dest_dir (str ''/etc/passwd'') = dest_dir @ str ''/etc/passwd'')
   \<and> (cpio_step int16 dest_dir s = Continue ops s' \<longrightarrow>
        (\<exists>name t d.
           decoded_name int16 s = Some name
           \<and> (ops = [MakeDirs (cpio_full_path dest_dir name)]
              \<or> ops = [Symlink t (cpio_full_path dest_dir name)]
              \<or> ops = [MakeDirs (dirname (cpio_full_path dest_dir name)),
                        WriteFile (cpio_full_path dest_dir name) d])
           \<and> (str ''..'' \<notin> set (split_sep name) \<longrightarrow>
                inside dest_dir (cpio_full_path dest_dir name))))
   \<and> (op \<in> set (fst (extract_loop int16 dest_dir s [])) \<longrightarrow>
        (\<exists>s1 ops1 s2 name t d.
           suffix s1 s \<and> cpio_step int16 dest_dir s1 = Continue ops1 s2 \<and> op \<in> set ops1
           \<and> decoded_name int16 s1 = Some name
           \<and> (ops1 = [MakeDirs (cpio_full_path dest_dir name)]
              \<or> ops1 = [Symlink t (cpio_full_path dest_dir name)]
              \<or> ops1 = [MakeDirs (dirname (cpio_full_path dest_dir name)),
                         WriteFile (cpio_full_path dest_dir name) d])
           \<and> (str ''..'' \<notin> set (split_sep name) \<longrightarrow>
                inside dest_dir (cpio_full_path dest_dir name))))"
proof (intro conjI impI)
  assume "str ''..'' \<notin> set (split_sep filename)"
  then show "inside dest_dir (cpio_full_path dest_dir filename)" by (rule inside_cpio_full_path)
next
  assume "dest_dir \<noteq> [] \<and> last dest_dir \<noteq> 47"
  then show "cpio_full_path dest_dir (str ''/etc/passwd'') = dest_dir @ str ''/etc/passwd''"
    by (simp add: cpio_full_path_def os_path_join_def lstrip_sep_def str_def)
next
  assume "cpio_step int16 dest_dir s = Continue ops s'"
  from cpio_step_Continue_name [OF this] obtain name t d where
    "decoded_name int16 s = Some name"
    "ops = [MakeDirs (cpio_full_path dest_dir name)]
      \<or> ops = [Symlink t (cpio_full_path dest_dir name)]
      \<or> ops = [MakeDirs (dirname (cpio_full_path dest_dir name)),
                WriteFile (cpio_full_path dest_dir name) d]"
    by blast
  moreover have "str ''..'' \<notin> set (split_sep name) \<longrightarrow>
      inside dest_dir (cpio_full_path dest_dir name)"
    by (simp add: inside_cpio_full_path)
  ultimately show "\<exists>name t d.
           decoded_name int16 s = Some name
           \<and> (ops = [MakeDirs (cpio_full_path dest_dir name)]
              \<or> ops = [Symlink t (cpio_full_path dest_dir name)]
              \<or> ops = [MakeDirs (dirname (cpio_full_path dest_dir name)),
                        WriteFile (cpio_full_path dest_dir name) d])
           \<and> (str ''..'' \<notin> set (split_sep name) \<longrightarrow>
                inside dest_dir (cpio_full_path dest_dir name))"
    by blast
next
  assume "op \<in> set (fst (extract_loop int16 dest_dir s []))"
  from extract_loop_ops_origin [OF this] obtain s1 ops1 s2 where
    a: "suffix s1 s" "cpio_step int16 dest_dir s1 = Continue ops1 s2" "op \<in> set ops1"
    by auto
  from cpio_step_Continue_name [OF a(2)] obtain name t d where
    b: "decoded_name int16 s1 = Some name"
    "ops1 = [MakeDirs (cpio_full_path dest_dir name)]
      \<or> ops1 = [Symlink t (cpio_full_path dest_dir name)]
      \<or> ops1 = [MakeDirs (dirname (cpio_full_path dest_dir name)),
                 WriteFile (cpio_full_path dest_dir name) d]"
    by blast
  have c: "str ''..'' \<notin> set (split_sep name) \<longrightarrow>
      inside dest_dir (cpio_full_path dest_dir name)"
    by (simp add: inside_cpio_full_path)
  from a b c show "\<exists>s1 ops1 s2 name t d.
           suffix s1 s \<and> cpio_step int16 dest_dir s1 = Continue ops1 s2 \<and> op \<in> set ops1
           \<and> decoded_name int16 s1 = Some name
           \<and> (ops1 = [MakeDirs (cpio_full_path dest_dir name)]
              \<or> ops1 = [Symlink t (cpio_full_path dest_dir name)]
              \<or> ops1 = [MakeDirs (dirname (cpio_full_path dest_dir name)),
                         WriteFile (cpio_full_path dest_dir name) d])
           \<and> (str ''..'' \<notin> set (split_sep name) \<longrightarrow>
                inside dest_dir (cpio_full_path dest_dir name))"
    by blast
qed

theorem cpio_full_path_contained_witness:
  "cpio_step hex_int (str ''out'') passwd_archive
     = Continue [MakeDirs (str ''out/etc''), WriteFile (str ''out/etc/passwd'') (map of_char ''hi'')]
         trailer
   \<and> decoded_name hex_int passwd_archive = Some (str ''/etc/passwd'')
   \<and> cpio_full_path (str ''out'') (str ''/etc/passwd'') = str ''out/etc/passwd''
   \<and> inside (str ''out'') (str ''out/etc/passwd'')"
proof -
  note t = cpio_full_path_contained [where filename = "str ''/etc/passwd''"
      and dest_dir = "str ''out''" and ?int16.0 = hex_int and s = passwd_archive
      and ops = "[MakeDirs (str ''out/etc''), WriteFile (str ''out/etc/passwd'') (map of_char ''hi'')]"
      and s' = trailer and op = "MakeDirs []"]
  have b: "str ''out'' \<noteq> [] \<and> last (str ''out'') \<noteq> 47" by (simp add: str_def)
  have c: "str ''out'' @ str ''/etc/passwd'' = str ''out/etc/passwd''" by (simp add: str_def)
  have n: "str ''..'' \<notin> set (split_sep (str ''/etc/passwd''))" by (simp add: str_def)
  from t b have "cpio_full_path (str ''out'') (str ''/etc/passwd'') = str ''out'' @ str ''/etc/passwd''"
    by blast
  with c have e: "cpio_full_path (str ''out'') (str ''/etc/passwd'') = str ''out/etc/passwd''"
    by simp
  from t passwd_archive_step obtain name where
    nm: "decoded_name hex_int passwd_archive = Some name"
    and i: "str ''..'' \<notin> set (split_sep name) \<longrightarrow>
        inside (str ''out'') (cpio_full_path (str ''out'') name)"
    by blast
  from nm passwd_archive_name have "name = str ''/etc/passwd''" by simp
  with i n e have "inside (str ''out'') (str ''out/etc/passwd'')" by simp
  with passwd_archive_step passwd_archive_name e show ?thesis by simp
qed

text \<open>
  As stated, for names with \<open>..\<close> components too, the claim fails: from an archive
  with a file named \<open>../x\<close> the extractor writes \<open>/out/../x\<close>, which is outside
  \<open>/out\<close>.
\<close>

theorem climbing_name_counterexample:
  "extract_loop hex_int (str ''/out'') climbing_archive []
     = ([MakeDirs (str ''/out/..''), WriteFile (str ''/out/../x'') (map of_char ''hi'')],
        Stopped Trailer)
   \<and> \<not> inside (str ''/out'') (str ''/out/../x'')"
proof -
  have "\<not> inside (str ''/out'') (str ''/out/../x'')"
    by (simp add: inside_def normpath_comps_def norm_push_def str_def)
  then show ?thesis
    by (simp add: extract_loop_Continue [OF climbing_archive_step] extract_loop_Stop [OF trailer_step])
qed

subsection \<open>Symbolic links\<close>

text \<open>
  Claim C2 says that an entry whose mode denotes a symbolic link becomes a symbolic link
  whatever its file size. In the source the branch that calls \<open>os.symlink\<close> is nested
  under \<open>if filesize == 0\<close>, although it reads \<open>filesize\<close> bytes of target and pads
  by \<open>filesize\<close>; a link with a target therefore takes the branch of regular files.
  On the archive with the link \<open>link\<close> to \<open>hi.txt\<close> the extractor writes a regular
  file \<open>out/link\<close> that holds the text \<open>hi.txt\<close>, and requests no symbolic link.
\<close>

theorem symlink_entry_written_as_file:
  "extract_loop hex_int (str ''out'') symlink_archive []
     = ([MakeDirs (str ''out''), WriteFile (str ''out/link'') (map of_char ''hi.txt'')],
        Stopped Trailer)"
  by (simp add: extract_loop_Continue [OF symlink_archive_step] extract_loop_Stop [OF trailer_step])

subsection \<open>How the loop ends\<close>




end
